theory Spec2Isabelle
  imports Main
begin

section \<open>Python strings\<close>

text \<open>
  A Python \<open>str\<close> is modelled as a \<open>string\<close> whose characters are the code points below
  256. The methods of \<open>str\<close> the program calls are written out on that type.
\<close>

type_synonym bytes = string

definition lower_char :: "char \<Rightarrow> char" where
  "lower_char c =
     (let n = (of_char c :: nat)
      in if (65 \<le> n \<and> n \<le> 90) \<or> (192 \<le> n \<and> n \<le> 222 \<and> n \<noteq> 215)
         then char_of (n + 32) else c)"

definition lower :: "string \<Rightarrow> string" where
  "lower s = map lower_char s"

fun startswith :: "string \<Rightarrow> string \<Rightarrow> bool" where
  "startswith s [] = True"
| "startswith [] (p # ps) = False"
| "startswith (c # cs) (p # ps) = (c = p \<and> startswith cs ps)"

definition endswith :: "string \<Rightarrow> string \<Rightarrow> bool" where
  "endswith s suf = startswith (rev s) (rev suf)"

text \<open>\<open>sub in s\<close>\<close>

fun contains :: "string \<Rightarrow> string \<Rightarrow> bool" where
  "contains [] sub = (sub = [])"
| "contains (c # cs) sub = (startswith (c # cs) sub \<or> contains cs sub)"

text \<open>
  \<open>s.split(sep)\<close> for a non-empty separator: the pieces between the non-overlapping
  occurrences of \<open>sep\<close>, found from the left. The accumulator holds the piece being read.
  (Python raises ValueError on an empty separator; every call of the program passes a
  non-empty literal.)
\<close>

function split_from :: "string \<Rightarrow> string \<Rightarrow> string \<Rightarrow> string list" where
  "split_from sep acc [] = [acc]"
| "split_from sep acc (c # cs) =
     (if startswith (c # cs) sep
      then acc # split_from sep [] (drop (length sep - 1) cs)
      else split_from sep (acc @ [c]) cs)"
  by pat_completeness auto
termination
  by (relation "measure (\<lambda>(sep, acc, s). length s)") auto

definition split :: "string \<Rightarrow> string \<Rightarrow> string list" where
  "split s sep = split_from sep [] s"

text \<open>\<open>s.lstrip(chars)\<close>\<close>

definition lstrip :: "string \<Rightarrow> string \<Rightarrow> string" where
  "lstrip s chars = dropWhile (\<lambda>c. c \<in> set chars) s"

text \<open>\<open>s.partition(c)\<close> for a one-character separator: the text before the first
  occurrence and the text after it (empty when there is none).\<close>

definition before_char :: "char \<Rightarrow> string \<Rightarrow> string" where
  "before_char d s = takeWhile (\<lambda>c. c \<noteq> d) s"

definition after_char :: "char \<Rightarrow> string \<Rightarrow> string" where
  "after_char d s = drop 1 (dropWhile (\<lambda>c. c \<noteq> d) s)"

section \<open>urllib.parse\<close>

text \<open>
  \<open>urlsplit\<close> and \<open>urlparse\<close> follow CPython's \<open>urllib/parse.py\<close>. The validation of a
  bracketed (IPv6) host is done by the \<open>ipaddress\<close> module there; it is taken as a
  parameter. \<open>_checknetloc\<close> only rejects characters whose NFKC normal form contains one
  of \<open>/?#@:\<close>; no code point below 256 has such a normal form, so it never raises here.
\<close>

record parse_result =
  scheme :: string
  netloc :: string
  path :: string
  params :: string
  query :: string
  fragment :: string

definition ascii_alpha :: "char \<Rightarrow> bool" where
  "ascii_alpha c =
     (let n = (of_char c :: nat) in (65 \<le> n \<and> n \<le> 90) \<or> (97 \<le> n \<and> n \<le> 122))"

definition ascii_digit :: "char \<Rightarrow> bool" where
  "ascii_digit c = (let n = (of_char c :: nat) in 48 \<le> n \<and> n \<le> 57)"

definition scheme_chars :: "char \<Rightarrow> bool" where
  "scheme_chars c = (ascii_alpha c \<or> ascii_digit c \<or> c \<in> set ''+-.'')"

definition c0_control_or_space :: "char \<Rightarrow> bool" where
  "c0_control_or_space c = ((of_char c :: nat) \<le> 32)"

definition unsafe_url_byte :: "char \<Rightarrow> bool" where
  "unsafe_url_byte c = ((of_char c :: nat) \<in> {9, 10, 13})"

definition uses_params :: "string list" where
  "uses_params = ['''', ''ftp'', ''hdl'', ''prospero'', ''http'', ''imap'',
                  ''https'', ''shttp'', ''rtsp'', ''rtsps'', ''rtspu'', ''sip'',
                  ''sips'', ''mms'', ''sftp'', ''tel'']"

text \<open>The scheme: the text before the first colon when it starts with an ASCII letter
  and consists of scheme characters.\<close>

definition split_scheme :: "string \<Rightarrow> string \<times> string" where
  "split_scheme url =
     (let pre = before_char CHR '':'' url
      in if CHR '':'' \<in> set url \<and> pre \<noteq> [] \<and> ascii_alpha (hd pre) \<and> list_all scheme_chars pre
         then (lower pre, after_char CHR '':'' url)
         else ('''', url))"

definition splitnetloc :: "string \<Rightarrow> string \<times> string" where
  "splitnetloc url =
     (let r = drop 2 url; stop = (\<lambda>c. c \<in> set ''/?#'')
      in (takeWhile (\<lambda>c. \<not> stop c) r, dropWhile (\<lambda>c. \<not> stop c) r))"

datatype url_error = Invalid_IPv6_URL

definition urlsplit :: "(string \<Rightarrow> bool) \<Rightarrow> string \<Rightarrow> url_error + parse_result" where
  "urlsplit bracketed_host_ok url0 =
     (let url1 = filter (\<lambda>c. \<not> unsafe_url_byte c) (dropWhile c0_control_or_space url0);
          (sch, url2) = split_scheme url1;
          (nl, url3) = (if take 2 url2 = ''//'' then splitnetloc url2 else ('''', url2));
          lb = CHR ''['' \<in> set nl; rb = CHR '']'' \<in> set nl
      in if (lb \<and> \<not> rb) \<or> (rb \<and> \<not> lb) then Inl Invalid_IPv6_URL
         else if lb \<and> rb \<and> \<not> bracketed_host_ok (before_char CHR '']'' (after_char CHR ''['' nl))
         then Inl Invalid_IPv6_URL
         else
           let frag = after_char CHR ''#'' url3;
               url4 = before_char CHR ''#'' url3;
               qry = after_char CHR ''?'' url4;
               url5 = before_char CHR ''?'' url4
           in Inr \<lparr>scheme = sch, netloc = nl, path = url5, params = '''',
                    query = qry, fragment = frag\<rparr>)"

text \<open>\<open>_splitparams\<close>: the parameters follow the first semicolon of the last path
  segment.\<close>

definition splitparams :: "string \<Rightarrow> string \<times> string" where
  "splitparams url =
     (let seg = rev (before_char CHR ''/'' (rev url));
          dir = take (length url - length seg) url
      in if CHR '';'' \<in> set seg
         then (dir @ before_char CHR '';'' seg, after_char CHR '';'' seg)
         else (url, ''''))"

definition urlparse :: "(string \<Rightarrow> bool) \<Rightarrow> string \<Rightarrow> url_error + parse_result" where
  "urlparse bracketed_host_ok url =
     (case urlsplit bracketed_host_ok url of
        Inl e \<Rightarrow> Inl e
      | Inr r \<Rightarrow>
          if scheme r \<in> set uses_params \<and> CHR '';'' \<in> set (path r)
          then (let (p, ps) = splitparams (path r) in Inr (r\<lparr>path := p, params := ps\<rparr>))
          else Inr r)"

text \<open>
  \<open>urllib.parse.quote(s)\<close> with the default \<open>safe='/'\<close>: the UTF-8 bytes of \<open>s\<close>, each
  kept when it is an ASCII letter, a digit or one of \<open>_.-~/\<close> and written \<open>%XX\<close>
  otherwise.
\<close>

definition utf8_encode :: "char \<Rightarrow> nat list" where
  "utf8_encode c =
     (let n = (of_char c :: nat)
      in if n < 128 then [n] else [192 + n div 64, 128 + n mod 64])"

definition hex_digit :: "nat \<Rightarrow> char" where
  "hex_digit d = (''0123456789ABCDEF'' ! d)"

definition always_safe :: "nat \<Rightarrow> bool" where
  "always_safe b =
     ((65 \<le> b \<and> b \<le> 90) \<or> (97 \<le> b \<and> b \<le> 122) \<or> (48 \<le> b \<and> b \<le> 57)
      \<or> b \<in> {95, 46, 45, 126})"

definition quote_byte :: "nat \<Rightarrow> string" where
  "quote_byte b =
     (if always_safe b \<or> b = 47 then [char_of b]
      else [CHR ''%'', hex_digit (b div 16), hex_digit (b mod 16)])"

definition quote :: "string \<Rightarrow> string" where
  "quote s = concat (map quote_byte (concat (map utf8_encode s)))"

section \<open>posixpath and the file system\<close>

text \<open>
  The file system is a tree without links or permissions: a map from absolute paths (the
  names from the root down) to nodes. A path string is resolved the way POSIX does it,
  component by component from the root or from the working directory: an empty component
  and \<open>.\<close> stay, \<open>..\<close> goes to the parent, a name is looked up, and every step needs the
  node reached so far to be a directory.
\<close>

datatype node = Dir | File bytes

type_synonym fs_path = "string list"

type_synonym filesystem = "fs_path \<Rightarrow> node option"

definition rstrip :: "string \<Rightarrow> string \<Rightarrow> string" where
  "rstrip s chars = rev (dropWhile (\<lambda>c. c \<in> set chars) (rev s))"

definition path_join :: "string \<Rightarrow> string \<Rightarrow> string" where
  "path_join a b =
     (if startswith b ''/'' then b
      else if a = [] \<or> endswith a ''/'' then a @ b
      else a @ ''/'' @ b)"

definition dirname :: "string \<Rightarrow> string" where
  "dirname p =
     (let head = rev (dropWhile (\<lambda>c. c \<noteq> CHR ''/'') (rev p))
      in if head \<noteq> [] \<and> \<not> list_all (\<lambda>c. c = CHR ''/'') head then rstrip head ''/'' else head)"

definition start_dir :: "fs_path \<Rightarrow> string \<Rightarrow> fs_path" where
  "start_dir wd p = (if startswith p ''/'' then [] else wd)"

fun walk :: "filesystem \<Rightarrow> fs_path \<Rightarrow> string list \<Rightarrow> fs_path option" where
  "walk fs cur [] = Some cur"
| "walk fs cur (c # cs) =
     (if fs cur \<noteq> Some Dir then None
      else if c = [] \<or> c = ''.'' then walk fs cur cs
      else if c = ''..'' then walk fs (butlast cur) cs
      else (case fs (cur @ [c]) of
              None \<Rightarrow> None
            | Some n \<Rightarrow> walk fs (cur @ [c]) cs))"

text \<open>\<open>os.path.exists\<close> and \<open>os.path.isdir\<close>\<close>

definition path_exists :: "filesystem \<Rightarrow> fs_path \<Rightarrow> string \<Rightarrow> bool" where
  "path_exists fs wd p = (p \<noteq> [] \<and> walk fs (start_dir wd p) (split p ''/'') \<noteq> None)"


text \<open>
  \<open>os.makedirs(name, exist_ok)\<close>: every missing directory on the way to the last
  component is created; a regular file on the way makes the call fail, and the directories
  created before stay. The last component is then made with \<open>mkdir\<close>: when it is there
  already the call fails unless \<open>exist_ok\<close> holds and it is a directory. (\<open>os.makedirs\<close>
  returns without calling \<open>mkdir\<close> when the last component is \<open>.\<close> and its parent had to
  be created.)
\<close>

fun mkdir_walk :: "filesystem \<Rightarrow> fs_path \<Rightarrow> string list \<Rightarrow> filesystem \<times> fs_path option" where
  "mkdir_walk fs cur [] = (fs, if fs cur = Some Dir then Some cur else None)"
| "mkdir_walk fs cur (c # cs) =
     (if fs cur \<noteq> Some Dir then (fs, None)
      else if c = [] \<or> c = ''.'' then mkdir_walk fs cur cs
      else if c = ''..'' then mkdir_walk fs (butlast cur) cs
      else (case fs (cur @ [c]) of
              None \<Rightarrow> mkdir_walk (fs(cur @ [c] \<mapsto> Dir)) (cur @ [c]) cs
            | Some n \<Rightarrow> mkdir_walk fs (cur @ [c]) cs))"

text \<open>The components of a path string, without the empty ones that trailing slashes
  leave at the end.\<close>

definition path_components :: "string \<Rightarrow> string list" where
  "path_components name = rev (dropWhile (\<lambda>c. c = []) (rev (split name ''/'')))"

datatype exception =
    ValueError_urlparse
  | AttributeError
  | JSONDecodeError
  | RequestException
  | OSError
  | BadZipFile

definition makedirs ::
  "filesystem \<Rightarrow> fs_path \<Rightarrow> string \<Rightarrow> bool \<Rightarrow> filesystem \<times> (exception + unit)" where
  "makedirs fs wd name exist_ok =
     (if name = [] then (fs, Inl OSError)
      else
        let comps = path_components name
        in if comps = [] then (fs, if exist_ok \<and> fs [] = Some Dir then Inr () else Inl OSError)
           else
             (case mkdir_walk fs (start_dir wd name) (butlast comps) of
                (fs1, None) \<Rightarrow> (fs1, Inl OSError)
              | (fs1, Some d) \<Rightarrow>
                  if last comps = ''.'' then
                    (fs1, if exist_ok \<or> walk fs (start_dir wd name) (butlast comps) = None
                          then Inr () else Inl OSError)
                  else if last comps = ''..'' then
                    (fs1, if exist_ok then Inr () else Inl OSError)
                  else
                    (case fs1 (d @ [last comps]) of
                       None \<Rightarrow> (fs1(d @ [last comps] \<mapsto> Dir), Inr ())
                     | Some Dir \<Rightarrow> (fs1, if exist_ok then Inr () else Inl OSError)
                     | Some (File b) \<Rightarrow> (fs1, Inl OSError))))"

text \<open>
  \<open>open(p, 'wb')\<close>: the directory part must resolve to a directory, the last component
  must be a name that is not a directory; the file is created or truncated. The result is
  the new file system and the node the handle writes to.
\<close>

definition open_wb :: "filesystem \<Rightarrow> fs_path \<Rightarrow> string \<Rightarrow> exception + (filesystem \<times> fs_path)" where
  "open_wb fs wd p =
     (let comps = split p ''/''; c = last comps
      in if p = [] \<or> c = [] \<or> c = ''.'' \<or> c = ''..'' then Inl OSError
         else
           (case walk fs (start_dir wd p) (butlast comps) of
              None \<Rightarrow> Inl OSError
            | Some d \<Rightarrow>
                if fs d \<noteq> Some Dir \<or> fs (d @ [c]) = Some Dir then Inl OSError
                else Inr (fs(d @ [c] \<mapsto> File []), d @ [c])))"

section \<open>The remote service and the archive\<close>

text \<open>
  A decoded JSON value (numbers are the integers). An object keeps its members in document
  order; \<open>json.loads\<close> lets the last of several equal keys win.
\<close>

datatype json =
    JNull
  | JBool bool
  | JNum int
  | JStr string
  | JArr "json list"
  | JObj "(string \<times> json) list"

definition dict_get :: "(string \<times> json) list \<Rightarrow> string \<Rightarrow> json option" where
  "dict_get kvs k = map_of (rev kvs) k"

text \<open>Python's truth value of a decoded JSON value.\<close>

fun truthy :: "json \<Rightarrow> bool" where
  "truthy JNull = False"
| "truthy (JBool b) = b"
| "truthy (JNum n) = (n \<noteq> 0)"
| "truthy (JStr s) = (s \<noteq> [])"
| "truthy (JArr xs) = (xs \<noteq> [])"
| "truthy (JObj kvs) = (kvs \<noteq> [])"

text \<open>
  An archive member as \<open>zipfile\<close> lists it: its name and what reading it gives (the bytes,
  or \<open>BadZipFile\<close> when the stored checksum does not match).
\<close>

datatype member_data = Data bytes | Bad_CRC

record zip_info =
  filename :: string
  member :: member_data

definition is_dir :: "zip_info \<Rightarrow> bool" where
  "is_dir zi = endswith (filename zi) ''/''"

text \<open>
  What \<open>zipfile.ZipFile(io.BytesIO(resp.content))\<close> makes of a response body: reading the
  streamed body fails, the bytes are not a ZIP archive, or the archive opens with its
  members in archive order.
\<close>

datatype content = Stream_Broken | Not_A_Zip | Zip "zip_info list"

record response =
  status_code :: nat
  json_body :: "json option"
  body :: content

record request =
  req_url :: string
  req_referer :: "string option"
  req_timeout :: nat

datatype reply = Request_Failed | Response response

text \<open>
  What the program runs in: the working directory, the network (the reply to each GET;
  \<open>Request_Failed\<close> is any exception of \<open>requests.get\<close>), the validation of a bracketed
  host, and Python's \<open>str()\<close> of a JSON value that is not a string.
\<close>

record env =
  cwd :: fs_path
  http_get :: "request \<Rightarrow> reply"
  bracketed_host_ok :: "string \<Rightarrow> bool"
  str_of :: "json \<Rightarrow> string"

text \<open>The lines the program prints, by kind.\<close>

datatype message =
    Fetching_metadata string
  | HTTP_Error nat
  | Link_invalid
  | Access_denied
  | Error_fetching_metadata
  | No_bundle_found
  | Found_bundle string
  | Downloading_ZIP
  | Download_failed
  | Extracted string
  | Not_a_valid_ZIP
  | Done nat string

text \<open>The state the program changes: the disk, the requests sent so far and the
  lines printed so far (oldest first).\<close>

record world =
  disk :: filesystem
  sent :: "request list"
  stdout :: "message list"

text \<open>
  How a run ends when it does not return: the \<open>ValueError\<close> of line 29
  (\<open>InvalidLinkFormat\<close>), \<open>sys.exit(1)\<close> after one of the four messages, or an exception
  that nothing in the function catches.
\<close>

datatype failure =
    InvalidLinkFormat
  | MetadataFetchError "nat option"
  | EmptyBundleError
  | DownloadError
  | CorruptArchiveError
  | Unexpected exception

section \<open>download_and_extract_media_from_koofr\<close>

text \<open>Lines 18 to 20: the default of \<open>media_extensions\<close>.\<close>

definition default_media_extensions :: "string list" where
  "default_media_extensions =
     [''.jpg'', ''.jpeg'', ''.png'', ''.gif'', ''.bmp'', ''.webp'', ''.tiff'',
      ''.mp4'', ''.mov'', ''.avi'', ''.mkv'', ''.webm'', ''.flv'', ''.wmv'']"

text \<open>Lines 22 and 23: \<open>if not os.path.exists(output_folder): os.makedirs(output_folder)\<close>\<close>

definition ensure_output_folder :: "env \<Rightarrow> string \<Rightarrow> world \<Rightarrow> world \<times> (exception + unit)" where
  "ensure_output_folder e output_folder w =
     (if \<not> path_exists (disk w) (cwd e) output_folder
      then (case makedirs (disk w) (cwd e) output_folder False of
              (fs1, r) \<Rightarrow> (w\<lparr>disk := fs1\<rparr>, r))
      else (w, Inr ()))"

text \<open>Lines 26 to 32: the link identifier and the query.\<close>

definition parse_link :: "env \<Rightarrow> string \<Rightarrow> failure + (string \<times> string)" where
  "parse_link e link_url =
     (case urlparse (bracketed_host_ok e) link_url of
        Inl x \<Rightarrow> Inl (Unexpected ValueError_urlparse)
      | Inr parsed_url \<Rightarrow>
          let path_parts = split (path parsed_url) ''/links/''
          in if length path_parts < 2 then Inl InvalidLinkFormat
             else
               let link_id = split (path_parts ! 1) ''?'' ! 0;
                   qry = (if query parsed_url \<noteq> [] then query parsed_url else ''path=%2F'')
               in Inr (link_id, qry))"

text \<open>Line 35: \<open>password_param\<close>\<close>

definition password_param :: "string option \<Rightarrow> string" where
  "password_param password =
     (case password of
        None \<Rightarrow> ''&password=''
      | Some p \<Rightarrow> if p \<noteq> [] then ''&password='' @ quote p else ''&password='')"

text \<open>Line 38: \<open>api_url\<close>\<close>

definition api_url :: "string \<Rightarrow> string \<Rightarrow> string option \<Rightarrow> string" where
  "api_url link_id qry password =
     ''https://app.koofr.net/api/v2/public/links/'' @ link_id @ ''/bundle?'' @ qry
       @ password_param password"

definition say :: "message list \<Rightarrow> world \<Rightarrow> world" where
  "say ms w = w\<lparr>stdout := stdout w @ ms\<rparr>"

definition send :: "request \<Rightarrow> world \<Rightarrow> world" where
  "send r w = w\<lparr>sent := sent w @ [r]\<rparr>"

text \<open>\<open>resp.raise_for_status()\<close> raises for the status codes 400 to 599.\<close>

definition raises_for_status :: "response \<Rightarrow> bool" where
  "raises_for_status r = (400 \<le> status_code r \<and> status_code r < 600)"

text \<open>Lines 39 to 61: the metadata request and \<open>bundle_name\<close>.\<close>

definition fetch_metadata ::
  "env \<Rightarrow> string \<Rightarrow> string \<Rightarrow> string option \<Rightarrow> world \<Rightarrow> world \<times> (failure + json)" where
  "fetch_metadata e link_id qry password w =
     (let rq = \<lparr>req_url = api_url link_id qry password, req_referer = None, req_timeout = 30\<rparr>;
          w1 = send rq (say [Fetching_metadata (api_url link_id qry password)] w)
      in case http_get e rq of
           Request_Failed \<Rightarrow>
             (say [Error_fetching_metadata] w1, Inl (MetadataFetchError None))
         | Response resp \<Rightarrow>
             if raises_for_status resp then
               (say ([HTTP_Error (status_code resp)]
                     @ (if status_code resp = 404 then [Link_invalid]
                        else if status_code resp = 403 then [Access_denied] else [])) w1,
                Inl (MetadataFetchError (Some (status_code resp))))
             else
               (case json_body resp of
                  None \<Rightarrow> (w1, Inl (Unexpected JSONDecodeError))
                | Some (JObj kvs) \<Rightarrow>
                    (case (case dict_get kvs ''file'' of None \<Rightarrow> JObj [] | Some v \<Rightarrow> v) of
                       JObj fkvs \<Rightarrow>
                         (case dict_get fkvs ''name'' of
                            None \<Rightarrow> (say [No_bundle_found] w1, Inl EmptyBundleError)
                          | Some bundle_name \<Rightarrow>
                              if \<not> truthy bundle_name
                              then (say [No_bundle_found] w1, Inl EmptyBundleError)
                              else (w1, Inr bundle_name))
                     | _ \<Rightarrow> (w1, Inl (Unexpected AttributeError)))
                | Some _ \<Rightarrow> (w1, Inl (Unexpected AttributeError))))"

text \<open>The text an f-string puts in for \<open>{bundle_name}\<close>.\<close>

definition format_value :: "env \<Rightarrow> json \<Rightarrow> string" where
  "format_value e v = (case v of JStr s \<Rightarrow> s | _ \<Rightarrow> str_of e v)"

text \<open>Lines 64 to 66: \<open>dl_url\<close>\<close>

definition dl_url :: "string \<Rightarrow> string \<Rightarrow> string \<Rightarrow> string option \<Rightarrow> string" where
  "dl_url link_id zip_filename qry password =
     ''https://app.koofr.net/content/links/'' @ link_id @ ''/files/get/'' @ quote zip_filename
       @ ''?'' @ qry @ password_param password @ ''&pf=1&force''"

text \<open>Lines 61 to 76: the download request.\<close>

definition download_bundle ::
  "env \<Rightarrow> string \<Rightarrow> string \<Rightarrow> string \<Rightarrow> string option \<Rightarrow> json \<Rightarrow> world
     \<Rightarrow> world \<times> (failure + response)" where
  "download_bundle e link_url link_id qry password bundle_name w =
     (let zip_filename = format_value e bundle_name @ ''.zip'';
          rq = \<lparr>req_url = dl_url link_id zip_filename qry password,
                req_referer = Some link_url, req_timeout = 60\<rparr>;
          w1 = send rq (say [Found_bundle (format_value e bundle_name), Downloading_ZIP] w)
      in case http_get e rq of
           Request_Failed \<Rightarrow> (say [Download_failed] w1, Inl DownloadError)
         | Response resp \<Rightarrow>
             if raises_for_status resp then (say [Download_failed] w1, Inl DownloadError)
             else (w1, Inr resp))"

text \<open>Line 86: \<open>any(filename_lower.endswith(ext) for ext in media_extensions)\<close>\<close>

definition is_media :: "string list \<Rightarrow> zip_info \<Rightarrow> bool" where
  "is_media media_extensions file_info =
     (let filename_lower = lower (filename file_info)
      in list_ex (\<lambda>ext. endswith filename_lower ext) media_extensions)"

text \<open>Line 88: \<open>extract_path\<close>\<close>

definition extract_path :: "string \<Rightarrow> zip_info \<Rightarrow> string" where
  "extract_path output_folder file_info =
     path_join output_folder (lstrip (filename file_info) ''/'')"

text \<open>
  Lines 88 to 95, for one member that passed the two tests: the directories, the target
  opened for writing (which creates or empties it), the member read and written, and the
  line printed.
\<close>

definition extract_member :: "env \<Rightarrow> string \<Rightarrow> zip_info \<Rightarrow> world \<Rightarrow> world \<times> (exception + unit)" where
  "extract_member e output_folder file_info w =
     (case makedirs (disk w) (cwd e) (dirname (extract_path output_folder file_info)) True of
        (fs1, Inl x) \<Rightarrow> (w\<lparr>disk := fs1\<rparr>, Inl x)
      | (fs1, Inr u) \<Rightarrow>
          (case open_wb fs1 (cwd e) (extract_path output_folder file_info) of
             Inl x \<Rightarrow> (w\<lparr>disk := fs1\<rparr>, Inl x)
           | Inr (fs2, target) \<Rightarrow>
               (case member file_info of
                  Bad_CRC \<Rightarrow> (w\<lparr>disk := fs2\<rparr>, Inl BadZipFile)
                | Data b \<Rightarrow>
                    (say [Extracted (filename file_info)] (w\<lparr>disk := fs2(target \<mapsto> File b)\<rparr>),
                     Inr ()))))"

text \<open>Lines 82 to 95: the loop over \<open>z.infolist()\<close>, with \<open>total_extracted\<close>.\<close>

fun extract_members ::
  "env \<Rightarrow> string \<Rightarrow> string list \<Rightarrow> zip_info list \<Rightarrow> nat \<Rightarrow> world \<Rightarrow> world \<times> (exception + nat)" where
  "extract_members e output_folder media_extensions [] total_extracted w =
     (w, Inr total_extracted)"
| "extract_members e output_folder media_extensions (file_info # rest) total_extracted w =
     (if is_dir file_info
      then extract_members e output_folder media_extensions rest total_extracted w
      else if is_media media_extensions file_info
      then (case extract_member e output_folder file_info w of
              (w1, Inl x) \<Rightarrow> (w1, Inl x)
            | (w1, Inr u) \<Rightarrow>
                extract_members e output_folder media_extensions rest (total_extracted + 1) w1)
      else extract_members e output_folder media_extensions rest total_extracted w)"

text \<open>
  Lines 79 to 100: the archive opened from the response body, the loop, the handler of
  \<open>BadZipFile\<close> and the final line with the count.
\<close>

definition extract_archive ::
  "env \<Rightarrow> string \<Rightarrow> string list \<Rightarrow> content \<Rightarrow> world \<Rightarrow> world \<times> (failure + unit)" where
  "extract_archive e output_folder media_extensions c w =
     (case c of
        Stream_Broken \<Rightarrow> (w, Inl (Unexpected RequestException))
      | Not_A_Zip \<Rightarrow> (say [Not_a_valid_ZIP] w, Inl CorruptArchiveError)
      | Zip infolist \<Rightarrow>
          (case extract_members e output_folder media_extensions infolist 0 w of
             (w1, Inl BadZipFile) \<Rightarrow> (say [Not_a_valid_ZIP] w1, Inl CorruptArchiveError)
           | (w1, Inl x) \<Rightarrow> (w1, Inl (Unexpected x))
           | (w1, Inr total_extracted) \<Rightarrow>
               (say [Done total_extracted output_folder] w1, Inr ())))"

text \<open>The whole function. \<open>media_extensions\<close> and \<open>password\<close> are \<open>None\<close> by default.\<close>

definition download_and_extract_media_from_koofr ::
  "env \<Rightarrow> string \<Rightarrow> string \<Rightarrow> string list option \<Rightarrow> string option \<Rightarrow> world
     \<Rightarrow> world \<times> (failure + unit)" where
  "download_and_extract_media_from_koofr e link_url output_folder media_extensions password w =
     (let exts = (case media_extensions of None \<Rightarrow> default_media_extensions | Some xs \<Rightarrow> xs)
      in case ensure_output_folder e output_folder w of
           (w1, Inl x) \<Rightarrow> (w1, Inl (Unexpected x))
         | (w1, Inr u) \<Rightarrow>
             (case parse_link e link_url of
                Inl f \<Rightarrow> (w1, Inl f)
              | Inr (link_id, qry) \<Rightarrow>
                  (case fetch_metadata e link_id qry password w1 of
                     (w2, Inl f) \<Rightarrow> (w2, Inl f)
                   | (w2, Inr bundle_name) \<Rightarrow>
                       (case download_bundle e link_url link_id qry password bundle_name w2 of
                          (w3, Inl f) \<Rightarrow> (w3, Inl f)
                        | (w3, Inr resp) \<Rightarrow>
                            extract_archive e output_folder exts (body resp) w3))))"

section \<open>Example environments\<close>

text \<open>A disk holding the root and the working directory \<open>/home\<close>, a network that
  cannot be reached, and a run that has done nothing yet.\<close>

definition example_disk :: filesystem where
  "example_disk = [[] \<mapsto> Dir, [''home''] \<mapsto> Dir]"

definition offline :: env where
  "offline = \<lparr>cwd = [''home''], http_get = (\<lambda>r. Request_Failed),
               bracketed_host_ok = (\<lambda>h. False), str_of = (\<lambda>v. ''?'')\<rparr>"

definition fresh :: world where
  "fresh = \<lparr>disk = example_disk, sent = [], stdout = []\<rparr>"

text \<open>The archive of the round-trip scenario, an archive in which one member's name
  is a directory of the next one's, an archive that holds one name twice, and a disk with
  a regular file in the working directory.\<close>

definition example_archive :: "zip_info list" where
  "example_archive =
     [\<lparr>filename = ''a.jpg'', member = Data ''A''\<rparr>,
      \<lparr>filename = ''b.txt'', member = Data ''B''\<rparr>,
      \<lparr>filename = ''sub/c.png'', member = Data ''C''\<rparr>,
      \<lparr>filename = ''sub/'', member = Data ''''\<rparr>]"

definition conflicting_archive :: "zip_info list" where
  "conflicting_archive =
     [\<lparr>filename = ''x.jpg'', member = Data ''first''\<rparr>,
      \<lparr>filename = ''x.jpg/y.jpg'', member = Data ''second''\<rparr>]"

definition repeated_archive :: "zip_info list" where
  "repeated_archive =
     [\<lparr>filename = ''a.jpg'', member = Data ''old''\<rparr>,
      \<lparr>filename = ''sub/b.mp4'', member = Data ''clip''\<rparr>,
      \<lparr>filename = ''a.jpg'', member = Data ''new''\<rparr>]"



section \<open>Vocabulary of the specification\<close>



text \<open>
  A member is selected when it is not a directory and its lower-cased name ends with one
  of the configured suffixes. \<open>isfile\<close> is \<open>os.path.isfile\<close>: the path resolves to a regular
  file. A node is inside a folder when the folder's path is a prefix of its own. The
  destination of a member on a disk is the node its \<open>extract_path\<close> resolves to there.
\<close>

definition selected :: "string list \<Rightarrow> zip_info \<Rightarrow> bool" where
  "selected media_extensions zi =
     (\<not> is_dir zi \<and> (\<exists>ext \<in> set media_extensions. endswith (lower (filename zi)) ext))"

definition isfile :: "filesystem \<Rightarrow> fs_path \<Rightarrow> string \<Rightarrow> bool" where
  "isfile fs wd p =
     (p \<noteq> [] \<and>
      (case walk fs (start_dir wd p) (split p ''/'') of
         None \<Rightarrow> False
       | Some d \<Rightarrow> (case fs d of Some (File b) \<Rightarrow> True | _ \<Rightarrow> False)))"

definition inside :: "fs_path \<Rightarrow> fs_path \<Rightarrow> bool" where
  "inside folder node = (take (length folder) node = folder)"

definition destination :: "filesystem \<Rightarrow> env \<Rightarrow> string \<Rightarrow> zip_info \<Rightarrow> fs_path option" where
  "destination fs e output_folder zi =
     (let p = extract_path output_folder zi
      in if p = [] then None else walk fs (start_dir (cwd e) p) (split p ''/''))"

section \<open>Shapes of disks\<close>

text \<open>
  The kind of a node (absent, directory, file), a disk that has every node of another
  with the same kind, two disks with the same nodes of the same kinds, and a disk that
  differs from another only by directories added.
\<close>

definition kind :: "node option \<Rightarrow> bool option" where
  "kind x = map_option (\<lambda>n. n = Dir) x"

definition extends :: "filesystem \<Rightarrow> filesystem \<Rightarrow> bool" where
  "extends f g = (\<forall>p. f p \<noteq> None \<longrightarrow> kind (g p) = kind (f p))"

definition same_shape :: "filesystem \<Rightarrow> filesystem \<Rightarrow> bool" where
  "same_shape f g = (\<forall>p. kind (g p) = kind (f p))"

definition adds_dirs :: "filesystem \<Rightarrow> filesystem \<Rightarrow> bool" where
  "adds_dirs f g = (\<forall>p. g p = f p \<or> (f p = None \<and> g p = Some Dir))"

section \<open>Facts about the string functions\<close>

lemma startswith_iff: "startswith s p \<longleftrightarrow> (\<exists>r. s = p @ r)"
  by (induction s p rule: startswith.induct) auto

lemma endswith_iff: "endswith s suf \<longleftrightarrow> (\<exists>r. s = r @ suf)"
proof -
  have "(\<exists>r. rev s = rev suf @ r) \<longleftrightarrow> (\<exists>r. s = r @ suf)"
  proof
    assume "\<exists>r. rev s = rev suf @ r"
    then obtain r where "rev s = rev suf @ r" ..
    then have "s = rev r @ suf" by (metis rev_append rev_rev_ident)
    then show "\<exists>r. s = r @ suf" ..
  next
    assume "\<exists>r. s = r @ suf"
    then obtain r where "s = r @ suf" ..
    then have "rev s = rev suf @ rev r" by simp
    then show "\<exists>r. rev s = rev suf @ r" ..
  qed
  then show ?thesis by (simp add: endswith_def startswith_iff)
qed

lemma contains_iff: "contains s sub \<longleftrightarrow> (\<exists>a b. s = a @ sub @ b)"
proof (induction s)
  case Nil
  then show ?case by auto
next
  case (Cons c cs)
  show ?case
  proof
    assume "contains (c # cs) sub"
    then consider "startswith (c # cs) sub" | "contains cs sub" by auto
    then show "\<exists>a b. c # cs = a @ sub @ b"
    proof cases
      case 1
      then obtain r where "c # cs = sub @ r" by (auto simp: startswith_iff)
      then have "c # cs = [] @ sub @ r" by simp
      then show ?thesis by blast
    next
      case 2
      then obtain a b where "cs = a @ sub @ b" using Cons.IH by auto
      then have "c # cs = (c # a) @ sub @ b" by simp
      then show ?thesis by blast
    qed
  next
    assume "\<exists>a b. c # cs = a @ sub @ b"
    then obtain a b where ab: "c # cs = a @ sub @ b" by blast
    show "contains (c # cs) sub"
    proof (cases a)
      case Nil
      with ab have "startswith (c # cs) sub" by (auto simp: startswith_iff)
      then show ?thesis by simp
    next
      case (Cons x a')
      with ab have "cs = a' @ sub @ b" by simp
      then have "contains cs sub" using Cons.IH by blast
      then show ?thesis by simp
    qed
  qed
qed

lemma startswith_shorter:
  "length p \<le> length u \<Longrightarrow> startswith (u @ v) p \<Longrightarrow> startswith u p"
  by (induction u p rule: startswith.induct) auto

lemma split_from_none:
  "\<not> contains s sep \<Longrightarrow> split_from sep acc s = [acc @ s]"
  by (induction sep acc s rule: split_from.induct) auto

lemma split_from_first:
  assumes "sep \<noteq> []" and "\<not> contains (a @ butlast sep) sep"
  shows "split_from sep acc (a @ sep @ b) = (acc @ a) # split_from sep [] b"
  using assms
proof (induction a arbitrary: acc)
  case Nil
  then obtain c cs where sep: "sep = c # cs" by (cases sep) auto
  have "startswith (sep @ b) sep" by (simp add: startswith_iff)
  then show ?case using sep by simp
next
  case (Cons x a)
  have no: "\<not> startswith (x # a @ sep @ b) sep"
  proof
    assume st: "startswith (x # a @ sep @ b) sep"
    have len: "length sep \<le> length ((x # a) @ butlast sep)" using Cons.prems(1) by (cases sep) auto
    have "sep @ b = butlast sep @ (last sep # b)"
      using Cons.prems(1) by (metis append.assoc append_Cons append_Nil append_butlast_last_id)
    then have "x # a @ sep @ b = ((x # a) @ butlast sep) @ (last sep # b)"
      by simp
    then have "startswith (((x # a) @ butlast sep) @ (last sep # b)) sep"
      using st by (simp only:)
    then have "startswith ((x # a) @ butlast sep) sep" using len by (rule startswith_shorter[rotated])
    then have "contains ((x # a) @ butlast sep) sep"
      by (cases "(x # a) @ butlast sep") (auto simp del: startswith.simps)
    then show False using Cons.prems(2) by simp
  qed
  have "\<not> contains (a @ butlast sep) sep"
    using Cons.prems(2) by auto
  then have "split_from sep (acc @ [x]) (a @ sep @ b) = ((acc @ [x]) @ a) # split_from sep [] b"
    using Cons.IH Cons.prems(1) by blast
  then show ?case using no by simp
qed

lemma split_notin: "d \<notin> set s \<Longrightarrow> split s [d] = [s]"
proof -
  assume "d \<notin> set s"
  then have "\<not> contains s [d]" unfolding contains_iff by auto
  then show ?thesis by (simp add: split_def split_from_none)
qed

section \<open>Suffix matching\<close>

lemma lower_char_idem: "lower_char (lower_char c) = lower_char c"
  by (auto simp: lower_char_def Let_def)

lemma lower_idem: "lower (lower s) = lower s"
  by (simp add: lower_def lower_char_idem)

lemma lower_append: "lower (a @ b) = lower a @ lower b"
  by (simp add: lower_def)

lemma endswith_lower_fixed:
  assumes "endswith (lower s) ext" shows "lower ext = ext"
proof -
  from assms obtain r where r: "lower s = r @ ext" by (auto simp: endswith_iff)
  have "lower (lower s) = lower s" by (rule lower_idem)
  then have "lower (r @ ext) = r @ ext" by (simp only: r)
  then have "lower r @ lower ext = r @ ext" by (simp only: lower_append)
  moreover have "length (lower r) = length r" by (simp add: lower_def)
  ultimately show ?thesis by simp
qed

lemma is_media_iff:
  "is_media exts zi \<longleftrightarrow> (\<exists>ext \<in> set exts. endswith (lower (filename zi)) ext)"
  by (simp add: is_media_def list_ex_iff)

text \<open>
  Claim C5, as the code has it: whether a member matches depends on its name only up to
  letter case (two names with the same lower-case form match the same suffix lists), and a
  configured suffix is compared as it was given, so that a list of suffixes each holding an
  upper-case letter matches no member at all.
\<close>

theorem suffix_match_ignores_name_case_only:
  "(lower (filename a) = lower (filename b) \<longrightarrow> is_media exts a = is_media exts b)
   \<and> (list_all (\<lambda>ext. lower ext \<noteq> ext) exts \<longrightarrow> \<not> is_media exts a)"
proof (intro conjI impI)
  assume "lower (filename a) = lower (filename b)"
  then show "is_media exts a = is_media exts b" by (simp add: is_media_def)
next
  assume up: "list_all (\<lambda>ext. lower ext \<noteq> ext) exts"
  show "\<not> is_media exts a"
  proof
    assume "is_media exts a"
    then obtain ext where "ext \<in> set exts" "endswith (lower (filename a)) ext"
      by (auto simp: is_media_iff)
    then show False using up endswith_lower_fixed by (auto simp: list_all_iff)
  qed
qed

text \<open>\<open>PHOTO.JPG\<close> matches \<open>.jpg\<close> as \<open>photo.jpg\<close> does, and matches neither \<open>.JPG\<close>
  nor \<open>.Png\<close>.\<close>

theorem suffix_match_ignores_name_case_only_witness:
  "is_media [''.jpg''] \<lparr>filename = ''PHOTO.JPG'', member = Data ''x''\<rparr>
     = is_media [''.jpg''] \<lparr>filename = ''photo.jpg'', member = Data ''x''\<rparr>
   \<and> is_media [''.jpg''] \<lparr>filename = ''PHOTO.JPG'', member = Data ''x''\<rparr>
   \<and> \<not> is_media [''.JPG'', ''.Png''] \<lparr>filename = ''PHOTO.JPG'', member = Data ''x''\<rparr>"
proof -
  have h1: "lower (filename \<lparr>filename = ''PHOTO.JPG'', member = Data ''x''\<rparr>)
            = lower (filename \<lparr>filename = ''photo.jpg'', member = Data ''x''\<rparr>)"
    by code_simp
  have h2: "list_all (\<lambda>ext. lower ext \<noteq> ext) [''.JPG'', ''.Png'']" by code_simp
  have h3: "is_media [''.jpg''] \<lparr>filename = ''PHOTO.JPG'', member = Data ''x''\<rparr>" by code_simp
  show ?thesis
    using suffix_match_ignores_name_case_only
            [of "\<lparr>filename = ''PHOTO.JPG'', member = Data ''x''\<rparr>"
                "\<lparr>filename = ''photo.jpg'', member = Data ''x''\<rparr>" "[''.jpg'']"]
          suffix_match_ignores_name_case_only
            [of "\<lparr>filename = ''PHOTO.JPG'', member = Data ''x''\<rparr>"
                "\<lparr>filename = ''photo.jpg'', member = Data ''x''\<rparr>" "[''.JPG'', ''.Png'']"]
          h1 h2 h3
    by blast
qed

text \<open>The match does depend on the letter case of the suffix: \<open>photo.jpg\<close> matches
  \<open>.jpg\<close> and does not match \<open>.JPG\<close>.\<close>

theorem upper_case_suffix_counterexample:
  "is_media [''.jpg''] \<lparr>filename = ''photo.jpg'', member = Data ''x''\<rparr>
   \<and> \<not> is_media [''.JPG''] \<lparr>filename = ''photo.jpg'', member = Data ''x''\<rparr>"
  by code_simp
section \<open>The link parser and the requests\<close>

lemma before_char_notin: "d \<notin> set (before_char d s)"
  unfolding before_char_def by (metis (mono_tags, lifting) set_takeWhileD)

lemma set_before_char: "set (before_char d s) \<subseteq> set s"
  unfolding before_char_def by (auto dest: set_takeWhileD)

lemma urlsplit_path_no_query:
  assumes "urlsplit ok link_url = Inr r" shows "CHR ''?'' \<notin> set (path r)"
proof -
  from assms obtain u where "path r = before_char CHR ''?'' u"
    by (auto simp: urlsplit_def Let_def split: prod.splits if_splits)
  then show ?thesis by (simp add: before_char_notin)
qed

lemma splitparams_subset: "set (fst (splitparams u)) \<subseteq> set u"
proof -
  have "set (take n u) \<subseteq> set u" for n by (rule set_take_subset)
  moreover have "set (before_char CHR '';'' (rev (before_char CHR ''/'' (rev u)))) \<subseteq> set u"
    using set_before_char[of "CHR '';''" "rev (before_char CHR ''/'' (rev u))"]
          set_before_char[of "CHR ''/''" "rev u"] by auto
  ultimately show ?thesis by (auto simp: splitparams_def Let_def)
qed

lemma urlparse_path_no_query:
  assumes "urlparse ok link_url = Inr r" shows "CHR ''?'' \<notin> set (path r)"
proof (cases "urlsplit ok link_url")
  case (Inl x)
  with assms show ?thesis by (simp add: urlparse_def)
next
  case (Inr r0)
  have r0: "CHR ''?'' \<notin> set (path r0)" using Inr by (rule urlsplit_path_no_query)
  show ?thesis
  proof (cases "scheme r0 \<in> set uses_params \<and> CHR '';'' \<in> set (path r0)")
    case True
    with assms Inr have "path r = fst (splitparams (path r0))"
      by (auto simp: urlparse_def split: prod.splits)
    then show ?thesis using r0 splitparams_subset[of "path r0"] by auto
  next
    case False
    with assms Inr have "r = r0" by (auto simp: urlparse_def)
    then show ?thesis using r0 by simp
  qed
qed

text \<open>
  Claim C3: when the path of the share link (as \<open>urlparse\<close> gives it, so without the
  query that may follow a \<open>?\<close>) is some prefix, the marker \<open>/links/\<close> at its first
  occurrence and an identifier in which the marker does not occur again (an identifier
  without a slash is the common case), the parser extracts exactly that identifier.
\<close>

theorem link_id_follows_marker:
  assumes "urlparse (bracketed_host_ok e) link_url = Inr parsed"
      and "path parsed = pre @ ''/links/'' @ ident"
      and "\<not> contains (pre @ ''/links'') ''/links/''"
      and "\<not> contains ident ''/links/''"
  shows "parse_link e link_url =
           Inr (ident, if query parsed = [] then ''path=%2F'' else query parsed)"
proof -
  have "\<not> contains (pre @ butlast ''/links/'') ''/links/''" using assms(3) by simp
  then have "split_from ''/links/'' [] (pre @ ''/links/'' @ ident)
             = ([] @ pre) # split_from ''/links/'' [] ident"
    by (intro split_from_first) simp_all
  then have parts: "split (path parsed) ''/links/'' = [pre, ident]"
    using assms(2,4) by (simp add: split_def split_from_none)
  have "CHR ''?'' \<notin> set (path parsed)" using assms(1) by (rule urlparse_path_no_query)
  then have "CHR ''?'' \<notin> set ident" using assms(2) by simp
  then have "split ident ''?'' = [ident]" by (rule split_notin)
  then show ?thesis using assms(1) parts by (simp add: parse_link_def)
qed

text \<open>
  The link of the program's own main block, which has a query, and a link without one.
\<close>

theorem link_id_follows_marker_witness:
  "parse_link offline ''https://app.koofr.net/links/c1fab741-0e23-4516-8f30-1bc31814aea0?path=%2FBreanna%20Ly''
     = Inr (''c1fab741-0e23-4516-8f30-1bc31814aea0'', ''path=%2FBreanna%20Ly'')
   \<and> parse_link offline ''https://app.koofr.net/links/abcd1234''
     = Inr (''abcd1234'', ''path=%2F'')"
proof -
  have a1: "urlparse (bracketed_host_ok offline)
              ''https://app.koofr.net/links/c1fab741-0e23-4516-8f30-1bc31814aea0?path=%2FBreanna%20Ly''
            = Inr \<lparr>scheme = ''https'', netloc = ''app.koofr.net'',
                   path = ''/links/c1fab741-0e23-4516-8f30-1bc31814aea0'', params = '''',
                   query = ''path=%2FBreanna%20Ly'', fragment = ''''\<rparr>"
    by code_simp
  have b1: "urlparse (bracketed_host_ok offline) ''https://app.koofr.net/links/abcd1234''
            = Inr \<lparr>scheme = ''https'', netloc = ''app.koofr.net'',
                   path = ''/links/abcd1234'', params = '''', query = '''', fragment = ''''\<rparr>"
    by code_simp
  have m: "\<not> contains ('''' @ ''/links'') ''/links/''" by code_simp
  have a4: "\<not> contains ''c1fab741-0e23-4516-8f30-1bc31814aea0'' ''/links/''" by code_simp
  have b4: "\<not> contains ''abcd1234'' ''/links/''" by code_simp
  show ?thesis
    using link_id_follows_marker[OF a1 _ m a4] link_id_follows_marker[OF b1 _ m b4] by simp
qed

lemma ensure_output_folder_keeps:
  "sent (fst (ensure_output_folder e out w)) = sent w"
  "stdout (fst (ensure_output_folder e out w)) = stdout w"
  by (auto simp: ensure_output_folder_def split: prod.splits)


lemma fetch_metadata_sent:
  "sent (fst (fetch_metadata e l q p w))
     = sent w @ [\<lparr>req_url = api_url l q p, req_referer = None, req_timeout = 30\<rparr>]"
  by (auto simp: fetch_metadata_def Let_def say_def send_def
           split: reply.splits option.splits json.splits)


lemma download_bundle_sent:
  "\<exists>rq. sent (fst (download_bundle e u l q p n w)) = sent w @ [rq]"
  by (auto simp: download_bundle_def Let_def say_def send_def split: reply.splits)

lemma extract_member_sent: "sent (fst (extract_member e out zi w)) = sent w"
  by (auto simp: extract_member_def say_def split: prod.splits sum.splits member_data.splits)

lemma extract_members_sent: "sent (fst (extract_members e out exts zs n w)) = sent w"
proof (induction zs arbitrary: n w)
  case Nil
  then show ?case by simp
next
  case (Cons zi zs)
  show ?case
  proof (cases "extract_member e out zi w")
    case (Pair w1 r)
    then have "sent w1 = sent w" using extract_member_sent[of e out zi w] by simp
    then show ?thesis using Pair Cons.IH by (auto split: sum.splits)
  qed
qed

lemma extract_archive_sent: "sent (fst (extract_archive e out exts c w)) = sent w"
proof (cases c)
  case (Zip zs)
  obtain w1 r where r: "extract_members e out exts zs 0 w = (w1, r)" by (cases "extract_members e out exts zs 0 w")
  then have "sent w1 = sent w" using extract_members_sent[of e out exts zs 0 w] by simp
  then show ?thesis using Zip r
    by (auto simp: extract_archive_def say_def split: sum.splits exception.splits)
qed (auto simp: extract_archive_def say_def)

text \<open>The run, once the folder is there and the link has been parsed.\<close>

lemma run_after_parse:
  assumes "snd (ensure_output_folder e out w) = Inr ()"
      and "parse_link e link_url = Inr (link_id, qry)"
  shows "download_and_extract_media_from_koofr e link_url out exts password w =
           (case fetch_metadata e link_id qry password (fst (ensure_output_folder e out w)) of
              (w2, Inl f) \<Rightarrow> (w2, Inl f)
            | (w2, Inr bundle_name) \<Rightarrow>
                (case download_bundle e link_url link_id qry password bundle_name w2 of
                   (w3, Inl f) \<Rightarrow> (w3, Inl f)
                 | (w3, Inr resp) \<Rightarrow>
                     extract_archive e out
                       (case exts of None \<Rightarrow> default_media_extensions | Some xs \<Rightarrow> xs)
                       (body resp) w3))"
  using assms
  by (cases "ensure_output_folder e out w")
     (simp add: download_and_extract_media_from_koofr_def)

lemma run_sent:
  assumes "snd (ensure_output_folder e out w) = Inr ()"
      and "parse_link e link_url = Inr (link_id, qry)"
  shows "\<exists>rest. sent (fst (download_and_extract_media_from_koofr e link_url out exts password w))
           = sent w @ \<lparr>req_url = api_url link_id qry password, req_referer = None,
                        req_timeout = 30\<rparr> # rest"
proof -
  let ?w1 = "fst (ensure_output_folder e out w)"
  let ?x = "case exts of None \<Rightarrow> default_media_extensions | Some xs \<Rightarrow> xs"
  obtain w2 r2 where f: "fetch_metadata e link_id qry password ?w1 = (w2, r2)"
    by (cases "fetch_metadata e link_id qry password ?w1")
  have s2: "sent w2 = sent w @ [\<lparr>req_url = api_url link_id qry password, req_referer = None,
                                   req_timeout = 30\<rparr>]"
    using fetch_metadata_sent[of e link_id qry password ?w1] f
    by (simp add: ensure_output_folder_keeps)
  show ?thesis
  proof (cases r2)
    case (Inl x)
    then show ?thesis using run_after_parse[OF assms, of exts password] f s2 by simp
  next
    case (Inr name)
    obtain w3 r3 where d: "download_bundle e link_url link_id qry password name w2 = (w3, r3)"
      by (cases "download_bundle e link_url link_id qry password name w2")
    obtain rq where s3: "sent w3 = sent w2 @ [rq]"
      using download_bundle_sent[of e link_url link_id qry password name w2] d by auto
    show ?thesis
    proof (cases r3)
      case (Inl x)
      then show ?thesis using run_after_parse[OF assms, of exts password] f Inr d s2 s3 by simp
    next
      case (Inr resp)
      have "sent (fst (extract_archive e out ?x (body resp) w3)) = sent w3"
        by (rule extract_archive_sent)
      then show ?thesis
        using run_after_parse[OF assms, of exts password] f \<open>r2 = Inr name\<close> d Inr s2 s3 by simp
    qed
  qed
qed

lemma quote_Nil: "quote [] = []"
  by (simp add: quote_def)

text \<open>
  Claim C6: for a share link that parses, the first request of the run goes to
  \<open>{base}/api/v2/public/links/{linkId}/bundle?{query}&password={password}\<close>, where the
  query is the one of the share link, or \<open>path=%2F\<close> when it has none, and the password
  parameter is always there: the quoted password when one is given, empty otherwise.
\<close>

theorem metadata_request_url:
  assumes "urlparse (bracketed_host_ok e) link_url = Inr parsed"
      and "parse_link e link_url = Inr (link_id, qry)"
      and "snd (ensure_output_folder e out w) = Inr ()"
  shows "\<exists>rest. sent (fst (download_and_extract_media_from_koofr e link_url out exts password w))
           = sent w @
             \<lparr>req_url = ''https://app.koofr.net/api/v2/public/links/'' @ link_id @ ''/bundle?''
                          @ (if query parsed = [] then ''path=%2F'' else query parsed)
                          @ ''&password='' @ (case password of None \<Rightarrow> [] | Some p \<Rightarrow> quote p),
               req_referer = None, req_timeout = 30\<rparr> # rest"
proof -
  have q: "qry = (if query parsed = [] then ''path=%2F'' else query parsed)"
    using assms(1,2) by (auto simp: parse_link_def Let_def split: if_splits)
  have "password_param password = ''&password='' @ (case password of None \<Rightarrow> [] | Some p \<Rightarrow> quote p)"
    by (auto simp: password_param_def quote_Nil split: option.splits)
  then have "api_url link_id qry password
             = ''https://app.koofr.net/api/v2/public/links/'' @ link_id @ ''/bundle?''
                 @ (if query parsed = [] then ''path=%2F'' else query parsed)
                 @ ''&password='' @ (case password of None \<Rightarrow> [] | Some p \<Rightarrow> quote p)"
    using q by (simp add: api_url_def)
  then show ?thesis using run_sent[OF assms(3,2), of exts password] by simp
qed



text \<open>
  A link with a query and the password \<open>p w\<close>.
\<close>

theorem metadata_request_url_witness:
  "\<exists>rest. sent (fst (download_and_extract_media_from_koofr offline
              ''https://app.koofr.net/links/abcd1234?path=%2FMy%20Folder'' ''downloads'' None
              (Some ''p w'') fresh))
     = \<lparr>req_url = ''https://app.koofr.net/api/v2/public/links/abcd1234/bundle?path=%2FMy%20Folder&password=p%20w'',
        req_referer = None, req_timeout = 30\<rparr> # rest"
proof -
  have h1: "urlparse (bracketed_host_ok offline) ''https://app.koofr.net/links/abcd1234?path=%2FMy%20Folder''
            = Inr \<lparr>scheme = ''https'', netloc = ''app.koofr.net'', path = ''/links/abcd1234'',
                   params = '''', query = ''path=%2FMy%20Folder'', fragment = ''''\<rparr>"
    by code_simp
  have h2: "parse_link offline ''https://app.koofr.net/links/abcd1234?path=%2FMy%20Folder''
            = Inr (''abcd1234'', ''path=%2FMy%20Folder'')"
    by code_simp
  have h3: "snd (ensure_output_folder offline ''downloads'' fresh) = Inr ()" by code_simp
  have h4: "sent fresh = []" by (simp add: fresh_def)
  have h5: "quote ''p w'' = ''p%20w''" by code_simp
  show ?thesis
    using metadata_request_url[OF h1 h2 h3, of None "Some ''p w''"] h4 h5 by simp
qed





section \<open>Facts about the file system\<close>

lemma kind_Dir: "kind x = kind (Some Dir) \<longleftrightarrow> x = Some Dir"
  by (cases x) (auto simp: kind_def)

lemma kind_None: "kind x = kind None \<longleftrightarrow> x = None"
  by (cases x) (auto simp: kind_def)

lemma kind_File: "kind x = kind (Some (File b)) \<longleftrightarrow> (\<exists>c. x = Some (File c))"
proof (cases x)
  case None
  then show ?thesis by (simp add: kind_def)
next
  case (Some n)
  then show ?thesis by (cases n) (auto simp: kind_def)
qed

lemma extends_refl: "extends f f"
  by (simp add: extends_def)

lemma extends_trans: "extends f g \<Longrightarrow> extends g h \<Longrightarrow> extends f h"
  unfolding extends_def by (metis kind_None)

lemma same_shape_refl: "same_shape f f"
  by (simp add: same_shape_def)

lemma same_shape_extends: "same_shape f g \<Longrightarrow> extends f g"
  by (simp add: same_shape_def extends_def)

lemma extends_Dir: "extends f g \<Longrightarrow> f p = Some Dir \<Longrightarrow> g p = Some Dir"
  unfolding extends_def by (metis kind_Dir option.distinct(1))

lemma extends_File: "extends f g \<Longrightarrow> f p = Some (File b) \<Longrightarrow> \<exists>c. g p = Some (File c)"
  unfolding extends_def by (metis kind_File option.distinct(1))

lemma extends_Some: "extends f g \<Longrightarrow> f p = Some n \<Longrightarrow> \<exists>m. g p = Some m"
  by (cases n) (auto dest: extends_Dir extends_File)

lemma same_shape_Dir: "same_shape f g \<Longrightarrow> g p = Some Dir \<longleftrightarrow> f p = Some Dir"
  unfolding same_shape_def by (metis kind_Dir)

lemma same_shape_None: "same_shape f g \<Longrightarrow> g p = None \<longleftrightarrow> f p = None"
  unfolding same_shape_def by (metis kind_None)

lemma adds_dirs_refl: "adds_dirs f f"
  by (simp add: adds_dirs_def)

lemma adds_dirs_trans: "adds_dirs f g \<Longrightarrow> adds_dirs g h \<Longrightarrow> adds_dirs f h"
  unfolding adds_dirs_def by (metis option.distinct(1))

lemma adds_dirs_extends: "adds_dirs f g \<Longrightarrow> extends f g"
  unfolding adds_dirs_def extends_def by metis

lemma adds_dirs_mkdir: "f p = None \<Longrightarrow> adds_dirs f (f(p \<mapsto> Dir))"
  by (simp add: adds_dirs_def)

lemma adds_dirs_Dir: "adds_dirs f g \<Longrightarrow> f p = Some Dir \<Longrightarrow> g p = Some Dir"
  unfolding adds_dirs_def by (metis option.distinct(1))

lemma walk_extends:
  "walk f cur cs = Some d \<Longrightarrow> extends f g \<Longrightarrow> walk g cur cs = Some d"
proof (induction cs arbitrary: cur)
  case Nil
  then show ?case by simp
next
  case (Cons c cs)
  from Cons.prems(1) have dir: "f cur = Some Dir" by (auto split: if_splits)
  then have gdir: "g cur = Some Dir" using Cons.prems(2) by (rule extends_Dir[rotated])
  show ?case
  proof (cases "c = [] \<or> c = ''.''")
    case True
    then show ?thesis using Cons dir gdir by auto
  next
    case False
    note nd = this
    show ?thesis
    proof (cases "c = ''..''")
      case True
      then show ?thesis using Cons dir gdir nd by auto
    next
      case False
      with Cons.prems(1) dir nd obtain n where n: "f (cur @ [c]) = Some n"
        and w: "walk f (cur @ [c]) cs = Some d"
        by (auto split: option.splits)
      from n obtain m where "g (cur @ [c]) = Some m" using Cons.prems(2) extends_Some by blast
      then show ?thesis using Cons.IH[OF w Cons.prems(2)] gdir nd False by simp
    qed
  qed
qed

lemma walk_same_shape:
  "same_shape f g \<Longrightarrow> walk g cur cs = walk f cur cs"
proof (induction cs arbitrary: cur)
  case Nil
  then show ?case by simp
next
  case (Cons c cs)
  have d: "g cur = Some Dir \<longleftrightarrow> f cur = Some Dir" using Cons.prems by (rule same_shape_Dir)
  have n: "g (cur @ [c]) = None \<longleftrightarrow> f (cur @ [c]) = None" using Cons.prems by (rule same_shape_None)
  show ?case using Cons d n by (auto split: option.splits)
qed

lemma mkdir_walk_adds_dirs:
  "mkdir_walk f cur cs = (f', r) \<Longrightarrow> adds_dirs f f'"
proof (induction cs arbitrary: f cur)
  case Nil
  then show ?case by (auto simp: adds_dirs_refl)
next
  case (Cons c cs)
  show ?case
  proof (cases "f cur = Some Dir \<and> c \<noteq> [] \<and> c \<noteq> ''.'' \<and> c \<noteq> ''..'' \<and> f (cur @ [c]) = None")
    case True
    then have "mkdir_walk (f(cur @ [c] \<mapsto> Dir)) (cur @ [c]) cs = (f', r)"
      using Cons.prems by simp
    then have "adds_dirs (f(cur @ [c] \<mapsto> Dir)) f'" by (rule Cons.IH)
    moreover have "adds_dirs f (f(cur @ [c] \<mapsto> Dir))" using True by (simp add: adds_dirs_mkdir)
    ultimately show ?thesis by (rule adds_dirs_trans[rotated])
  next
    case False
    then show ?thesis using Cons
      by (auto simp: adds_dirs_refl split: if_splits option.splits)
  qed
qed

lemma mkdir_walk_reaches:
  "mkdir_walk f cur cs = (f', Some d) \<Longrightarrow> walk f' cur cs = Some d \<and> f' d = Some Dir"
proof (induction cs arbitrary: f cur)
  case Nil
  then show ?case by (auto split: if_splits)
next
  case (Cons c cs)
  from Cons.prems have dir: "f cur = Some Dir" by (auto split: if_splits)
  have dir': "f' cur = Some Dir"
    using mkdir_walk_adds_dirs[OF Cons.prems] dir by (rule adds_dirs_Dir)
  show ?case
  proof (cases "c = [] \<or> c = ''.'' \<or> c = ''..''")
    case True
    then show ?thesis using Cons dir dir' by auto
  next
    case False
    show ?thesis
    proof (cases "f (cur @ [c])")
      case None
      then have m: "mkdir_walk (f(cur @ [c] \<mapsto> Dir)) (cur @ [c]) cs = (f', Some d)"
        using Cons.prems dir False by simp
      have "f' (cur @ [c]) = Some Dir"
        using mkdir_walk_adds_dirs[OF m] by (rule adds_dirs_Dir) simp
      then show ?thesis using Cons.IH[OF m] dir' False by simp
    next
      case (Some n)
      then have m: "mkdir_walk f (cur @ [c]) cs = (f', Some d)"
        using Cons.prems dir False by simp
      have "\<exists>k. f' (cur @ [c]) = Some k"
        using adds_dirs_extends[OF mkdir_walk_adds_dirs[OF m]] Some by (rule extends_Some)
      then show ?thesis using Cons.IH[OF m] dir' False by auto
    qed
  qed
qed

lemma mkdir_walk_noop:
  "walk g cur cs = Some d \<Longrightarrow> g d = Some Dir \<Longrightarrow> mkdir_walk g cur cs = (g, Some d)"
  by (induction cs arbitrary: cur) (auto split: if_splits option.splits)

lemma mkdir_walk_again:
  assumes "mkdir_walk f cur cs = (f', Some d)" and "extends f' g"
  shows "mkdir_walk g cur cs = (g, Some d)"
proof -
  have "walk f' cur cs = Some d" and "f' d = Some Dir"
    using mkdir_walk_reaches[OF assms(1)] by auto
  then have "walk g cur cs = Some d" and "g d = Some Dir"
    using assms(2) by (auto intro: walk_extends extends_Dir)
  then show ?thesis by (rule mkdir_walk_noop)
qed

lemma mkdir_walk_fails_again:
  "mkdir_walk f cur cs = (f', None) \<Longrightarrow> same_shape f' g \<Longrightarrow> mkdir_walk g cur cs = (g, None)"
proof (induction cs arbitrary: f cur)
  case Nil
  then have "f' = f" "f cur \<noteq> Some Dir" by (auto split: if_splits)
  then have "g cur \<noteq> Some Dir" using same_shape_Dir[OF Nil.prems(2)] by simp
  then show ?case by simp
next
  case (Cons c cs)
  show ?case
  proof (cases "f cur = Some Dir")
    case False
    then have "f' = f" using Cons.prems(1) by simp
    then have "g cur \<noteq> Some Dir" using same_shape_Dir[OF Cons.prems(2)] False by simp
    then show ?thesis by simp
  next
    case True
    have "f' cur = Some Dir"
      using mkdir_walk_adds_dirs[OF Cons.prems(1)] True by (rule adds_dirs_Dir)
    then have gdir: "g cur = Some Dir" using same_shape_Dir[OF Cons.prems(2)] by simp
    show ?thesis
    proof (cases "c = [] \<or> c = ''.'' \<or> c = ''..''")
      case True
      then show ?thesis using Cons \<open>f cur = Some Dir\<close> gdir by auto
    next
      case False
      show ?thesis
      proof (cases "f (cur @ [c])")
        case None
        then have m: "mkdir_walk (f(cur @ [c] \<mapsto> Dir)) (cur @ [c]) cs = (f', None)"
          using Cons.prems(1) True False by simp
        have "f' (cur @ [c]) = Some Dir"
          using mkdir_walk_adds_dirs[OF m] by (rule adds_dirs_Dir) simp
        then have "g (cur @ [c]) = Some Dir" using same_shape_Dir[OF Cons.prems(2)] by simp
        then show ?thesis using Cons.IH[OF m Cons.prems(2)] gdir False by simp
      next
        case (Some n)
        then have m: "mkdir_walk f (cur @ [c]) cs = (f', None)"
          using Cons.prems(1) True False by simp
        have "\<exists>k. f' (cur @ [c]) = Some k"
          using adds_dirs_extends[OF mkdir_walk_adds_dirs[OF m]] Some by (rule extends_Some)
        then have "\<exists>k. g (cur @ [c]) = Some k"
          using same_shape_None[OF Cons.prems(2), of "cur @ [c]"] by auto
        then show ?thesis using Cons.IH[OF m Cons.prems(2)] gdir False by auto
      qed
    qed
  qed
qed

lemma makedirs_adds_dirs:
  "makedirs f wd name ok = (f', r) \<Longrightarrow> adds_dirs f f'"
proof -
  assume m: "makedirs f wd name ok = (f', r)"
  let ?comps = "path_components name"
  show ?thesis
  proof (cases "name = [] \<or> ?comps = []")
    case True
    then have "f' = f" using m by (auto simp: makedirs_def Let_def split: if_splits)
    then show ?thesis by (simp add: adds_dirs_refl)
  next
    case False
    obtain f1 r1 where w: "mkdir_walk f (start_dir wd name) (butlast ?comps) = (f1, r1)"
      by (cases "mkdir_walk f (start_dir wd name) (butlast ?comps)")
    have a1: "adds_dirs f f1" using w by (rule mkdir_walk_adds_dirs)
    have "f' = f1 \<or> (\<exists>p. f1 p = None \<and> f' = f1(p \<mapsto> Dir))"
      using m w False
      by (auto simp: makedirs_def Let_def split: if_splits option.splits node.splits)
    then have "adds_dirs f1 f'" by (auto simp: adds_dirs_refl adds_dirs_mkdir)
    with a1 show ?thesis by (rule adds_dirs_trans)
  qed
qed

lemma makedirs_again:
  assumes "makedirs f wd name True = (f', Inr u)" and "extends f' g"
  shows "makedirs g wd name True = (g, Inr ())"
proof -
  let ?comps = "path_components name"
  have ne: "name \<noteq> []" using assms(1) by (auto simp: makedirs_def)
  show ?thesis
  proof (cases "?comps = []")
    case True
    then have "f [] = Some Dir" "f' = f"
      using assms(1) ne by (auto simp: makedirs_def Let_def split: if_splits)
    then have "g [] = Some Dir" using assms(2) by (auto intro: extends_Dir)
    then show ?thesis using ne True by (simp add: makedirs_def Let_def)
  next
    case False
    obtain f1 r1 where w: "mkdir_walk f (start_dir wd name) (butlast ?comps) = (f1, r1)"
      by (cases "mkdir_walk f (start_dir wd name) (butlast ?comps)")
    then obtain d where r1: "r1 = Some d"
      using assms(1) ne False by (cases r1) (auto simp: makedirs_def Let_def)
    have "f' = f1 \<or> (\<exists>p. f1 p = None \<and> f' = f1(p \<mapsto> Dir))"
      using assms(1) w ne False
      by (auto simp: makedirs_def Let_def split: if_splits option.splits node.splits)
    then have "adds_dirs f1 f'" by (auto simp: adds_dirs_refl adds_dirs_mkdir)
    then have e1: "extends f1 g" using assms(2) adds_dirs_extends extends_trans by blast
    have gw: "mkdir_walk g (start_dir wd name) (butlast ?comps) = (g, Some d)"
      using w r1 e1 by (auto intro: mkdir_walk_again)
    show ?thesis
    proof (cases "last ?comps = ''.'' \<or> last ?comps = ''..''")
      case True
      then show ?thesis using gw ne False by (auto simp: makedirs_def Let_def)
    next
      case nd: False
      have "f' (d @ [last ?comps]) = Some Dir"
        using assms(1) w r1 ne False nd
        by (auto simp: makedirs_def Let_def split: if_splits option.splits node.splits)
      then have "g (d @ [last ?comps]) = Some Dir" using assms(2) by (auto intro: extends_Dir)
      then show ?thesis using gw ne False nd by (auto simp: makedirs_def Let_def)
    qed
  qed
qed

lemma makedirs_fails_again:
  assumes "makedirs f wd name True = (f', Inl x)" and "same_shape f' g"
  shows "makedirs g wd name True = (g, Inl x)"
proof -
  let ?comps = "path_components name"
  show ?thesis
  proof (cases "name = []")
    case True
    then show ?thesis using assms(1) by (auto simp: makedirs_def)
  next
    case ne: False
    show ?thesis
    proof (cases "?comps = []")
      case True
      then have "f [] \<noteq> Some Dir" "f' = f" "x = OSError"
        using assms(1) ne by (auto simp: makedirs_def Let_def split: if_splits)
      then have "g [] \<noteq> Some Dir" using same_shape_Dir[OF assms(2)] by simp
      then show ?thesis using ne True \<open>x = OSError\<close> by (simp add: makedirs_def Let_def)
    next
      case False
      obtain f1 r1 where w: "mkdir_walk f (start_dir wd name) (butlast ?comps) = (f1, r1)"
        by (cases "mkdir_walk f (start_dir wd name) (butlast ?comps)")
      show ?thesis
      proof (cases r1)
        case None
        then have "f' = f1" "x = OSError"
          using assms(1) w ne False by (auto simp: makedirs_def Let_def)
        then have "mkdir_walk g (start_dir wd name) (butlast ?comps) = (g, None)"
          using w None assms(2) by (auto intro: mkdir_walk_fails_again)
        then show ?thesis using ne False \<open>x = OSError\<close> by (simp add: makedirs_def Let_def)
      next
        case (Some d)
        have nd: "last ?comps \<noteq> ''.'' \<and> last ?comps \<noteq> ''..''"
          using assms(1) w Some ne False by (auto simp: makedirs_def Let_def split: if_splits)
        obtain b where fl: "f1 (d @ [last ?comps]) = Some (File b)" and eq: "f' = f1" "x = OSError"
          using assms(1) w Some ne False nd
          by (auto simp: makedirs_def Let_def split: if_splits option.splits node.splits)
        have gw: "mkdir_walk g (start_dir wd name) (butlast ?comps) = (g, Some d)"
          using w Some eq assms(2) by (auto intro: mkdir_walk_again same_shape_extends)
        obtain c where "g (d @ [last ?comps]) = Some (File c)"
          using fl eq same_shape_extends[OF assms(2)] extends_File by blast
        then show ?thesis using gw ne False nd eq by (simp add: makedirs_def Let_def)
      qed
    qed
  qed
qed

lemma open_wb_effect:
  assumes "open_wb f wd p = Inr (f2, tg)"
  shows "f2 = f(tg \<mapsto> File [])" and "f tg \<noteq> Some Dir" and "extends f f2"
proof -
  show a: "f2 = f(tg \<mapsto> File [])" and b: "f tg \<noteq> Some Dir"
    using assms by (auto simp: open_wb_def Let_def split: if_splits option.splits)
  show "extends f f2"
    unfolding extends_def
  proof (intro allI impI)
    fix q assume q: "f q \<noteq> None"
    show "kind (f2 q) = kind (f q)"
    proof (cases "q = tg")
      case True
      with q b obtain c where "f tg = Some (File c)"
        by (cases "f tg") (auto, metis node.exhaust)
      then show ?thesis using a True by (simp add: kind_def)
    next
      case False
      then show ?thesis using a by simp
    qed
  qed
qed

lemma open_wb_again:
  assumes "open_wb f wd p = Inr (f2, tg)" and "extends f2 g"
  shows "open_wb g wd p = Inr (g(tg \<mapsto> File []), tg)"
proof -
  let ?comps = "split p ''/''"
  from assms(1) obtain d where
    ok: "p \<noteq> []" "last ?comps \<noteq> []" "last ?comps \<noteq> ''.''" "last ?comps \<noteq> ''..''"
    and w: "walk f (start_dir wd p) (butlast ?comps) = Some d"
    and d: "f d = Some Dir" and tg: "tg = d @ [last ?comps]"
    by (auto simp: open_wb_def Let_def split: if_splits option.splits)
  have e: "extends f g" using open_wb_effect(3)[OF assms(1)] assms(2) by (rule extends_trans)
  have gw: "walk g (start_dir wd p) (butlast ?comps) = Some d" using w e by (rule walk_extends)
  have gd: "g d = Some Dir" using e d by (rule extends_Dir)
  have "f2 tg = Some (File [])" using open_wb_effect(1)[OF assms(1)] by simp
  then obtain c where "g tg = Some (File c)" using assms(2) extends_File by blast
  then show ?thesis using ok gw gd tg by (simp add: open_wb_def Let_def)
qed

lemma open_wb_fails_again:
  assumes "open_wb f wd p = Inl x" and "same_shape f g"
  shows "open_wb g wd p = Inl x"
proof -
  have w: "walk g (start_dir wd p) (butlast (split p ''/'')) = walk f (start_dir wd p) (butlast (split p ''/''))"
    using assms(2) by (rule walk_same_shape)
  have d: "\<And>q. g q = Some Dir \<longleftrightarrow> f q = Some Dir" using assms(2) by (rule same_shape_Dir)
  show ?thesis using assms(1) w d
    by (auto simp: open_wb_def Let_def split: if_splits option.splits)
qed

section \<open>The extractor\<close>

text \<open>What one member does to the disk: directories are added, and at most one node, the
  target, is made a file or gets new contents.\<close>

lemma extract_member_ok:
  assumes "extract_member e out zi w = (w1, Inr u)"
  shows "\<exists>f1 tg b. makedirs (disk w) (cwd e) (dirname (extract_path out zi)) True = (f1, Inr ())
            \<and> open_wb f1 (cwd e) (extract_path out zi) = Inr (f1(tg \<mapsto> File []), tg)
            \<and> member zi = Data b
            \<and> w1 = say [Extracted (filename zi)] (w\<lparr>disk := f1(tg \<mapsto> File b)\<rparr>)"
proof -
  obtain f1 r1 where m: "makedirs (disk w) (cwd e) (dirname (extract_path out zi)) True = (f1, r1)"
    by (cases "makedirs (disk w) (cwd e) (dirname (extract_path out zi)) True")
  then have r1: "r1 = Inr ()" using assms by (cases r1) (auto simp: extract_member_def)
  obtain f2 tg where o: "open_wb f1 (cwd e) (extract_path out zi) = Inr (f2, tg)"
    using assms m r1
    by (cases "open_wb f1 (cwd e) (extract_path out zi)") (auto simp: extract_member_def)
  have f2: "f2 = f1(tg \<mapsto> File [])" using o by (rule open_wb_effect(1))
  obtain b where b: "member zi = Data b"
    using assms m r1 o by (cases "member zi") (auto simp: extract_member_def)
  have "w1 = say [Extracted (filename zi)] (w\<lparr>disk := f1(tg \<mapsto> File b)\<rparr>)"
    using assms m r1 o b f2 by (simp add: extract_member_def)
  then show ?thesis using m r1 o f2 b by auto
qed

lemma extract_member_extends:
  assumes "extract_member e out zi w = (w1, r)"
  shows "extends (disk w) (disk w1)"
proof -
  obtain f1 r1 where m: "makedirs (disk w) (cwd e) (dirname (extract_path out zi)) True = (f1, r1)"
    by (cases "makedirs (disk w) (cwd e) (dirname (extract_path out zi)) True")
  have e1: "extends (disk w) f1" using m by (auto intro: adds_dirs_extends makedirs_adds_dirs)
  show ?thesis
  proof (cases r1)
    case (Inl x)
    then show ?thesis using assms m e1 by (auto simp: extract_member_def)
  next
    case (Inr u)
    show ?thesis
    proof (cases "open_wb f1 (cwd e) (extract_path out zi)")
      case (Inl x)
      then show ?thesis using assms m Inr e1 by (auto simp: extract_member_def)
    next
      case o: (Inr ft)
      obtain f2 tg where ft: "ft = (f2, tg)" by (cases ft)
      have e2: "extends f1 f2" and f2: "f2 = f1(tg \<mapsto> File [])"
        using o ft open_wb_effect by auto
      have e3: "extends f2 (f2(tg \<mapsto> File b))" for b
        using f2 by (auto simp: extends_def kind_def)
      have "disk w1 = f2 \<or> (\<exists>b. disk w1 = f2(tg \<mapsto> File b))"
        using assms m Inr o ft
        by (cases "member zi") (auto simp: extract_member_def say_def)
      then have "extends f2 (disk w1)" using e3 by (auto simp: extends_refl)
      then show ?thesis using e1 e2 extends_trans by blast
    qed
  qed
qed

lemma extract_members_skip:
  "is_dir zi \<or> \<not> is_media exts zi \<Longrightarrow>
     extract_members e out exts (zi # zs) n w = extract_members e out exts zs n w"
  by auto

lemma extract_members_take:
  "\<not> is_dir zi \<Longrightarrow> is_media exts zi \<Longrightarrow>
     extract_members e out exts (zi # zs) n w =
       (case extract_member e out zi w of
          (w1, Inl x) \<Rightarrow> (w1, Inl x)
        | (w1, Inr u) \<Rightarrow> extract_members e out exts zs (Suc n) w1)"
  by simp

lemma extract_members_extends:
  "extract_members e out exts zs n w = (w', r) \<Longrightarrow> extends (disk w) (disk w')"
proof (induction zs arbitrary: n w)
  case Nil
  then show ?case by (simp add: extends_refl)
next
  case (Cons zi zs)
  show ?case
  proof (cases "\<not> is_dir zi \<and> is_media exts zi")
    case False
    then have "extract_members e out exts zs n w = (w', r)"
      using Cons.prems extract_members_skip[of zi exts e out zs n w] by auto
    then show ?thesis by (rule Cons.IH)
  next
    case True
    note step = extract_members_take[of zi exts e out zs n w]
    obtain w1 r1 where m: "extract_member e out zi w = (w1, r1)"
      by (cases "extract_member e out zi w")
    have e1: "extends (disk w) (disk w1)" using m by (rule extract_member_extends)
    show ?thesis
    proof (cases r1)
      case (Inl x)
      then show ?thesis using Cons.prems True m e1 step by simp
    next
      case (Inr u)
      then have "extract_members e out exts zs (Suc n) w1 = (w', r)"
        using Cons.prems True m step by simp
      then have "extends (disk w1) (disk w')" by (rule Cons.IH)
      with e1 show ?thesis by (rule extends_trans)
    qed
  qed
qed

text \<open>
  A member that was extracted is extracted again on any disk that has at least the nodes
  the first extraction left: the second one creates nothing and gives the target the same
  contents.
\<close>

lemma extract_member_again:
  assumes "extract_member e out zi w = (w1, Inr u)" and "extends (disk w1) (disk v)"
  shows "\<exists>tg b. disk w1 tg = Some (File b)
           \<and> (\<forall>q. q \<noteq> tg \<longrightarrow> disk w1 q = disk w q \<or> (disk w q = None \<and> disk w1 q = Some Dir))
           \<and> stdout w1 = stdout w @ [Extracted (filename zi)]
           \<and> extract_member e out zi v
               = (say [Extracted (filename zi)] (v\<lparr>disk := (disk v)(tg \<mapsto> File b)\<rparr>), Inr ())"
proof -
  from extract_member_ok[OF assms(1)] obtain f1 tg b where
    m: "makedirs (disk w) (cwd e) (dirname (extract_path out zi)) True = (f1, Inr ())"
    and o: "open_wb f1 (cwd e) (extract_path out zi) = Inr (f1(tg \<mapsto> File []), tg)"
    and b: "member zi = Data b"
    and w1: "w1 = say [Extracted (filename zi)] (w\<lparr>disk := f1(tg \<mapsto> File b)\<rparr>)"
    by blast
  have d1: "disk w1 = f1(tg \<mapsto> File b)" using w1 by (simp add: say_def)
  have a1: "adds_dirs (disk w) f1" using m by (rule makedirs_adds_dirs)
  have e2: "extends (f1(tg \<mapsto> File [])) (disk v)"
    using assms(2) d1 by (auto simp: extends_def kind_def)
  have e1: "extends f1 (disk v)"
    using open_wb_effect(3)[OF o] e2 by (rule extends_trans)
  have gm: "makedirs (disk v) (cwd e) (dirname (extract_path out zi)) True = (disk v, Inr ())"
    using m e1 by (rule makedirs_again)
  have go: "open_wb (disk v) (cwd e) (extract_path out zi) = Inr ((disk v)(tg \<mapsto> File []), tg)"
    using o e2 by (rule open_wb_again)
  have "extract_member e out zi v
          = (say [Extracted (filename zi)] (v\<lparr>disk := (disk v)(tg \<mapsto> File b)\<rparr>), Inr ())"
    using gm go b by (simp add: extract_member_def)
  moreover have "\<forall>q. q \<noteq> tg \<longrightarrow> disk w1 q = disk w q \<or> (disk w q = None \<and> disk w1 q = Some Dir)"
    using a1 d1 by (auto simp: adds_dirs_def)
  moreover have "stdout w1 = stdout w @ [Extracted (filename zi)]" using w1 by (simp add: say_def)
  ultimately show ?thesis using d1 by auto
qed

text \<open>
  A member whose extraction failed fails again in the same way on a disk of the same shape,
  and leaves it as the first failure left its own, provided the two disks differ, if at
  all, only where the second still has the contents from before the first extraction.
\<close>

lemma fills_in:
  assumes "same_shape f1 g" and "adds_dirs f f1" and "\<forall>q. g q = f1 q \<or> g q = f q"
  shows "g = f1"
proof
  fix q
  show "g q = f1 q"
  proof (cases "g q = f1 q")
    case True
    then show ?thesis .
  next
    case False
    then have gq: "g q = f q" using assms(3) by auto
    then have "f1 q \<noteq> f q" using False by simp
    then have "f q = None" "f1 q = Some Dir" using assms(2) by (auto simp: adds_dirs_def)
    then have "g q = Some Dir" using same_shape_Dir[OF assms(1)] by simp
    then show ?thesis using gq \<open>f q = None\<close> by simp
  qed
qed

lemma extract_member_fails_again:
  assumes "extract_member e out zi w = (w1, Inl x)"
      and "same_shape (disk w1) (disk v)"
      and "\<forall>q. disk v q = disk w1 q \<or> disk v q = disk w q"
  shows "\<exists>v1. extract_member e out zi v = (v1, Inl x) \<and> disk v1 = disk w1
           \<and> stdout v1 = stdout v \<and> stdout w1 = stdout w"
proof -
  obtain f1 r1 where m: "makedirs (disk w) (cwd e) (dirname (extract_path out zi)) True = (f1, r1)"
    by (cases "makedirs (disk w) (cwd e) (dirname (extract_path out zi)) True")
  have a1: "adds_dirs (disk w) f1" using m by (rule makedirs_adds_dirs)
  show ?thesis
  proof (cases r1)
    case (Inl y)
    then have w1: "w1 = w\<lparr>disk := f1\<rparr>" "x = y" using assms(1) m by (auto simp: extract_member_def)
    then have ss: "same_shape f1 (disk v)" using assms(2) by simp
    have gm: "makedirs (disk v) (cwd e) (dirname (extract_path out zi)) True = (disk v, Inl y)"
      using m Inl ss by (auto intro: makedirs_fails_again)
    have "disk v = f1" using ss a1 assms(3) w1 by (intro fills_in) auto
    then show ?thesis using gm w1 by (simp add: extract_member_def)
  next
    case (Inr u)
    show ?thesis
    proof (cases "open_wb f1 (cwd e) (extract_path out zi)")
      case (Inl y)
      then have w1: "w1 = w\<lparr>disk := f1\<rparr>" "x = y"
        using assms(1) m Inr by (auto simp: extract_member_def)
      then have ss: "same_shape f1 (disk v)" using assms(2) by simp
      have gm: "makedirs (disk v) (cwd e) (dirname (extract_path out zi)) True = (disk v, Inr ())"
        using m Inr same_shape_extends[OF ss] by (auto intro: makedirs_again)
      have go: "open_wb (disk v) (cwd e) (extract_path out zi) = Inl y"
        using Inl ss by (rule open_wb_fails_again)
      have "disk v = f1" using ss a1 assms(3) w1 by (intro fills_in) auto
      then show ?thesis using gm go w1 by (simp add: extract_member_def)
    next
      case o: (Inr ft)
      obtain f2 tg where ft: "ft = (f2, tg)" by (cases ft)
      have f2: "f2 = f1(tg \<mapsto> File [])" using o ft open_wb_effect(1) by auto
      have bad: "member zi = Bad_CRC"
        using assms(1) m Inr o ft by (cases "member zi") (auto simp: extract_member_def)
      then have w1: "w1 = w\<lparr>disk := f2\<rparr>" "x = BadZipFile"
        using assms(1) m Inr o ft by (auto simp: extract_member_def)
      then have ss: "same_shape f2 (disk v)" using assms(2) by simp
      have e1: "extends f1 (disk v)"
        using open_wb_effect(3) o ft same_shape_extends[OF ss] extends_trans by blast
      have gm: "makedirs (disk v) (cwd e) (dirname (extract_path out zi)) True = (disk v, Inr ())"
        using m Inr e1 by (auto intro: makedirs_again)
      have go: "open_wb (disk v) (cwd e) (extract_path out zi)
                  = Inr ((disk v)(tg \<mapsto> File []), tg)"
        using o ft same_shape_extends[OF ss] by (auto intro: open_wb_again)
      have "(disk v)(tg \<mapsto> File []) = f2"
      proof
        fix q
        show "((disk v)(tg \<mapsto> File [])) q = f2 q"
        proof (cases "q = tg")
          case True
          then show ?thesis using f2 by simp
        next
          case False
          have "disk v q = f1 q"
          proof (cases "disk v q = f2 q")
            case True
            then show ?thesis using f2 False by simp
          next
            case F: False
            then have gq: "disk v q = disk w q" using assms(3) w1 by auto
            then have "f1 q \<noteq> disk w q" using F f2 False by simp
            then have "disk w q = None" "f1 q = Some Dir" using a1 by (auto simp: adds_dirs_def)
            then have "f2 q = Some Dir" using f2 False by simp
            then have "disk v q = Some Dir" using same_shape_Dir[OF ss] by simp
            then show ?thesis using gq \<open>disk w q = None\<close> by simp
          qed
          then show ?thesis using f2 False by simp
        qed
      qed
      then show ?thesis using gm go bad w1 by (simp add: extract_member_def)
    qed
  qed
qed

lemma extract_members_again:
  assumes "extract_members e out exts zs n w = (w', r)"
      and "same_shape (disk w') (disk v)"
      and "\<forall>q. disk v q = disk w' q \<or> disk v q = disk w q"
  shows "\<exists>v' ms. extract_members e out exts zs n v = (v', r) \<and> disk v' = disk w'
           \<and> stdout w' = stdout w @ ms \<and> stdout v' = stdout v @ ms"
  using assms
proof (induction zs arbitrary: n w v)
  case Nil
  then have "w' = w" "r = Inr n" by auto
  then have "disk v = disk w'" using Nil.prems(3) by auto
  then show ?case using \<open>w' = w\<close> \<open>r = Inr n\<close> by simp
next
  case (Cons zi zs)
  show ?case
  proof (cases "\<not> is_dir zi \<and> is_media exts zi")
    case False
    then have skip: "extract_members e out exts (zi # zs) k u = extract_members e out exts zs k u"
      for k u using extract_members_skip[of zi exts e out zs k u] by auto
    have "extract_members e out exts zs n w = (w', r)" using Cons.prems(1) skip by simp
    from Cons.IH[OF this Cons.prems(2,3)] show ?thesis using skip by simp
  next
    case True
    then have take: "extract_members e out exts (zi # zs) k u =
        (case extract_member e out zi u of
           (w1, Inl x) \<Rightarrow> (w1, Inl x)
         | (w1, Inr y) \<Rightarrow> extract_members e out exts zs (Suc k) w1)"
      for k u using extract_members_take[of zi exts e out zs k u] by auto
    obtain w1 r1 where m: "extract_member e out zi w = (w1, r1)"
      by (cases "extract_member e out zi w")
    show ?thesis
    proof (cases r1)
      case (Inl x)
      then have fin: "w' = w1" "r = Inl x" using Cons.prems(1) m take by auto
      have "\<exists>v1. extract_member e out zi v = (v1, Inl x) \<and> disk v1 = disk w1
              \<and> stdout v1 = stdout v \<and> stdout w1 = stdout w"
        using m Inl Cons.prems(2,3) fin by (intro extract_member_fails_again) auto
      then obtain v1 where "extract_member e out zi v = (v1, Inl x)" "disk v1 = disk w1"
        "stdout v1 = stdout v" "stdout w1 = stdout w" by blast
      then show ?thesis using fin take by simp
    next
      case (Inr u)
      then have rest: "extract_members e out exts zs (Suc n) w1 = (w', r)"
        using Cons.prems(1) m take by simp
      have e1: "extends (disk w1) (disk w')" using rest by (rule extract_members_extends)
      then have e2: "extends (disk w1) (disk v)"
        using same_shape_extends[OF Cons.prems(2)] by (rule extends_trans)
      from extract_member_again[OF m[unfolded Inr] e2] obtain tg b where
        tg: "disk w1 tg = Some (File b)"
        and frame: "\<forall>q. q \<noteq> tg \<longrightarrow> disk w1 q = disk w q \<or> (disk w q = None \<and> disk w1 q = Some Dir)"
        and out1: "stdout w1 = stdout w @ [Extracted (filename zi)]"
        and gv: "extract_member e out zi v
                   = (say [Extracted (filename zi)] (v\<lparr>disk := (disk v)(tg \<mapsto> File b)\<rparr>), Inr ())"
        by blast
      let ?v1 = "say [Extracted (filename zi)] (v\<lparr>disk := (disk v)(tg \<mapsto> File b)\<rparr>)"
      have dv1: "disk ?v1 = (disk v)(tg \<mapsto> File b)" by (simp add: say_def)
      obtain c where c: "disk w' tg = Some (File c)" using e1 tg extends_File by blast
      have ss: "same_shape (disk w') (disk ?v1)"
        unfolding same_shape_def
      proof
        fix q
        show "kind (disk ?v1 q) = kind (disk w' q)"
          using Cons.prems(2) c dv1 by (cases "q = tg") (auto simp: same_shape_def kind_def)
      qed
      have rel: "\<forall>q. disk ?v1 q = disk w' q \<or> disk ?v1 q = disk w1 q"
      proof
        fix q
        show "disk ?v1 q = disk w' q \<or> disk ?v1 q = disk w1 q"
        proof (cases "q = tg")
          case True
          then show ?thesis using dv1 tg by simp
        next
          case False
          then have eq: "disk ?v1 q = disk v q" using dv1 by simp
          show ?thesis
          proof (cases "disk v q = disk w' q")
            case True
            then show ?thesis using eq by simp
          next
            case F: False
            then have vq: "disk v q = disk w q" using Cons.prems(3) by auto
            show ?thesis
            proof (cases "disk w1 q = disk w q")
              case True
              then show ?thesis using eq vq by simp
            next
              case F2: False
              then have "disk w q = None" "disk w1 q = Some Dir" using frame False by auto
              then have "disk w' q = Some Dir" using e1 extends_Dir by blast
              then have "disk v q = Some Dir" using same_shape_Dir[OF Cons.prems(2)] by simp
              then show ?thesis using vq \<open>disk w q = None\<close> by simp
            qed
          qed
        qed
      qed
      from Cons.IH[OF rest ss rel] obtain v' ms where
        "extract_members e out exts zs (Suc n) ?v1 = (v', r)" "disk v' = disk w'"
        "stdout w' = stdout w1 @ ms" "stdout ?v1 @ ms = stdout v'"
        by auto
      moreover have "stdout ?v1 = stdout v @ [Extracted (filename zi)]" by (simp add: say_def)
      ultimately show ?thesis using gv take out1 by auto
    qed
  qed
qed

text \<open>
  Claim C9: for every response body, suffix list, output folder and starting disk, running
  the extraction a second time right after the first ends the same way (the same count or
  the same failure), prints the same lines again and leaves the disk exactly as the first
  run left it: a member's target is written over, nothing is added.
\<close>

theorem extraction_twice_same_files_and_count:
  "snd (extract_archive e out exts c (fst (extract_archive e out exts c w)))
     = snd (extract_archive e out exts c w)
   \<and> disk (fst (extract_archive e out exts c (fst (extract_archive e out exts c w))))
     = disk (fst (extract_archive e out exts c w))
   \<and> (\<exists>ms. stdout (fst (extract_archive e out exts c w)) = stdout w @ ms
          \<and> stdout (fst (extract_archive e out exts c (fst (extract_archive e out exts c w))))
            = stdout (fst (extract_archive e out exts c w)) @ ms)"
proof (cases c)
  case Stream_Broken
  then show ?thesis by (simp add: extract_archive_def)
next
  case Not_A_Zip
  then show ?thesis by (simp add: extract_archive_def say_def)
next
  case (Zip zs)
  obtain w' r where run: "extract_members e out exts zs 0 w = (w', r)"
    by (cases "extract_members e out exts zs 0 w")
  define tail where "tail =
    (case r of Inl BadZipFile \<Rightarrow> [Not_a_valid_ZIP] | Inl x \<Rightarrow> [] | Inr k \<Rightarrow> [Done k out])"
  define res :: "failure + unit" where "res =
    (case r of Inl BadZipFile \<Rightarrow> Inl CorruptArchiveError | Inl x \<Rightarrow> Inl (Unexpected x)
             | Inr k \<Rightarrow> Inr ())"
  have fin: "extract_archive e out exts c u = (say tail u', res)"
    if "extract_members e out exts zs 0 u = (u', r)" for u u'
    using that Zip
    by (auto simp: extract_archive_def tail_def res_def say_def split: sum.splits exception.splits)
  have first: "extract_archive e out exts c w = (say tail w', res)" using run by (rule fin)
  have d: "disk (say tail w') = disk w'" by (simp add: say_def)
  have "\<exists>v' ms. extract_members e out exts zs 0 (say tail w') = (v', r) \<and> disk v' = disk w'
          \<and> stdout w' = stdout w @ ms \<and> stdout v' = stdout (say tail w') @ ms"
    using run by (rule extract_members_again) (simp_all add: d same_shape_refl)
  then obtain v' ms where again: "extract_members e out exts zs 0 (say tail w') = (v', r)"
    and dv: "disk v' = disk w'" and o1: "stdout w' = stdout w @ ms"
    and o2: "stdout v' = stdout (say tail w') @ ms" by blast
  have second: "extract_archive e out exts c (say tail w') = (say tail v', res)"
    using again by (rule fin)
  have "stdout (say tail w') = stdout w @ (ms @ tail)" using o1 by (simp add: say_def)
  moreover have "stdout (say tail v') = stdout (say tail w') @ (ms @ tail)"
    using o2 by (simp add: say_def)
  ultimately show ?thesis using first second dv by (auto simp: say_def)
qed

lemma selected_iff: "selected exts zi \<longleftrightarrow> \<not> is_dir zi \<and> is_media exts zi"
  by (simp add: selected_def is_media_def list_ex_iff)

lemma split_from_nonempty: "split_from sep acc s \<noteq> []"
  by (induction sep acc s rule: split_from.induct) auto

lemma split_nonempty: "split s sep \<noteq> []"
  by (simp add: split_def split_from_nonempty)

lemma walk_append:
  "walk f cur (xs @ ys) = (case walk f cur xs of None \<Rightarrow> None | Some d \<Rightarrow> walk f d ys)"
  by (induction xs arbitrary: cur) (auto split: option.splits)

lemma extract_member_isfile:
  assumes "extract_member e out zi w = (w1, Inr u)" and "extends (disk w1) g"
  shows "isfile g (cwd e) (extract_path out zi)"
proof -
  let ?p = "extract_path out zi"
  let ?comps = "split ?p ''/''"
  from extract_member_ok[OF assms(1)] obtain f1 tg b where
    o: "open_wb f1 (cwd e) ?p = Inr (f1(tg \<mapsto> File []), tg)"
    and w1: "w1 = say [Extracted (filename zi)] (w\<lparr>disk := f1(tg \<mapsto> File b)\<rparr>)"
    by blast
  from o obtain d where
    ok: "?p \<noteq> []" "last ?comps \<noteq> []" "last ?comps \<noteq> ''.''" "last ?comps \<noteq> ''..''"
    and wk: "walk f1 (start_dir (cwd e) ?p) (butlast ?comps) = Some d"
    and d: "f1 d = Some Dir" and tg: "tg = d @ [last ?comps]"
    by (auto simp: open_wb_def Let_def split: if_splits option.splits)
  have d1: "disk w1 = f1(tg \<mapsto> File b)" using w1 by (simp add: say_def)
  have e1: "extends f1 (disk w1)"
  proof -
    have "extends f1 (f1(tg \<mapsto> File []))" using o by (rule open_wb_effect(3))
    moreover have "extends (f1(tg \<mapsto> File [])) (disk w1)"
      using d1 by (auto simp: extends_def kind_def)
    ultimately show ?thesis by (rule extends_trans)
  qed
  then have eg: "extends f1 g" using assms(2) by (rule extends_trans)
  have gw: "walk g (start_dir (cwd e) ?p) (butlast ?comps) = Some d" using wk eg by (rule walk_extends)
  have gd: "g d = Some Dir" using eg d by (rule extends_Dir)
  obtain c where gt: "g tg = Some (File c)"
    using assms(2) d1 extends_File[of "disk w1" g tg b] by auto
  have "?comps = butlast ?comps @ [last ?comps]" using split_nonempty[of ?p "''/''"] by simp
  then have "walk g (start_dir (cwd e) ?p) ?comps
             = (case walk g (start_dir (cwd e) ?p) (butlast ?comps) of
                  None \<Rightarrow> None | Some d \<Rightarrow> walk g d [last ?comps])"
    using walk_append[of g "start_dir (cwd e) ?p" "butlast ?comps" "[last ?comps]"] by simp
  then have "walk g (start_dir (cwd e) ?p) ?comps = Some tg"
    using gw gd gt ok tg by simp
  then show ?thesis using ok(1) gt by (simp add: isfile_def)
qed

lemma extract_members_only_selected:
  "extract_members e out exts zs n w = extract_members e out exts (filter (selected exts) zs) n w"
proof (induction zs arbitrary: n w)
  case Nil
  then show ?case by simp
next
  case (Cons zi zs)
  show ?case
  proof (cases "selected exts zi")
    case True
    then have "\<not> is_dir zi" "is_media exts zi" by (auto simp: selected_iff)
    then show ?thesis using True Cons.IH by (auto split: prod.splits sum.splits)
  next
    case False
    then have "is_dir zi \<or> \<not> is_media exts zi" by (auto simp: selected_iff)
    then have "extract_members e out exts (zi # zs) n w = extract_members e out exts zs n w"
      by (rule extract_members_skip)
    then show ?thesis using False Cons.IH by simp
  qed
qed

lemma extract_members_complete:
  assumes "extract_members e out exts zs n w = (w', Inr k)"
  shows "k = n + length (filter (selected exts) zs)
         \<and> stdout w' = stdout w @ map (\<lambda>zi. Extracted (filename zi)) (filter (selected exts) zs)
         \<and> list_all (\<lambda>zi. isfile (disk w') (cwd e) (extract_path out zi))
                     (filter (selected exts) zs)"
  using assms
proof (induction zs arbitrary: n w)
  case Nil
  then show ?case by auto
next
  case (Cons zi zs)
  show ?case
  proof (cases "selected exts zi")
    case False
    then have "is_dir zi \<or> \<not> is_media exts zi" by (auto simp: selected_iff)
    then have "extract_members e out exts zs n w = (w', Inr k)"
      using Cons.prems extract_members_skip[of zi exts e out zs n w] by simp
    from Cons.IH[OF this] show ?thesis using False by simp
  next
    case True
    then have sel: "\<not> is_dir zi" "is_media exts zi" by (auto simp: selected_iff)
    note step = extract_members_take[OF sel, of e out zs n w]
    obtain w1 r1 where m: "extract_member e out zi w = (w1, r1)"
      by (cases "extract_member e out zi w")
    then obtain u where r1: "r1 = Inr u" using Cons.prems step by (cases r1) auto
    have rest: "extract_members e out exts zs (Suc n) w1 = (w', Inr k)"
      using Cons.prems step m r1 by simp
    have e1: "extends (disk w1) (disk w')" using rest by (rule extract_members_extends)
    have here: "isfile (disk w') (cwd e) (extract_path out zi)"
      using m[unfolded r1] e1 by (rule extract_member_isfile)
    have o1: "stdout w1 = stdout w @ [Extracted (filename zi)]"
      using extract_member_ok[OF m[unfolded r1]] by (auto simp: say_def)
    from Cons.IH[OF rest] show ?thesis using True here o1 by simp
  qed
qed

lemma destination_extends:
  "destination f e out zi = Some tg \<Longrightarrow> extends f g \<Longrightarrow> destination g e out zi = Some tg"
  by (auto simp: destination_def Let_def split: if_splits intro: walk_extends)

lemma extract_member_destination:
  assumes "extract_member e out zi w = (w1, Inr u)"
  shows "\<exists>tg b. member zi = Data b \<and> destination (disk w1) e out zi = Some tg
           \<and> disk w1 tg = Some (File b)
           \<and> (\<forall>q. q \<noteq> tg \<longrightarrow> disk w1 q = disk w q \<or> (disk w q = None \<and> disk w1 q = Some Dir))"
proof -
  let ?p = "extract_path out zi"
  let ?comps = "split ?p ''/''"
  from extract_member_ok[OF assms] obtain f1 tg b where
    m: "makedirs (disk w) (cwd e) (dirname ?p) True = (f1, Inr ())"
    and o: "open_wb f1 (cwd e) ?p = Inr (f1(tg \<mapsto> File []), tg)"
    and b: "member zi = Data b"
    and w1: "w1 = say [Extracted (filename zi)] (w\<lparr>disk := f1(tg \<mapsto> File b)\<rparr>)"
    by blast
  from o obtain d where
    ok: "?p \<noteq> []" "last ?comps \<noteq> []" "last ?comps \<noteq> ''.''" "last ?comps \<noteq> ''..''"
    and wk: "walk f1 (start_dir (cwd e) ?p) (butlast ?comps) = Some d"
    and d: "f1 d = Some Dir" and tg: "tg = d @ [last ?comps]"
    by (auto simp: open_wb_def Let_def split: if_splits option.splits)
  have d1: "disk w1 = f1(tg \<mapsto> File b)" using w1 by (simp add: say_def)
  have "extends f1 (f1(tg \<mapsto> File []))" using o by (rule open_wb_effect(3))
  moreover have "extends (f1(tg \<mapsto> File [])) (disk w1)"
    using d1 by (auto simp: extends_def kind_def)
  ultimately have e1: "extends f1 (disk w1)" by (rule extends_trans)
  have gw: "walk (disk w1) (start_dir (cwd e) ?p) (butlast ?comps) = Some d"
    using wk e1 by (rule walk_extends)
  have gd: "disk w1 d = Some Dir" using e1 d by (rule extends_Dir)
  have gt: "disk w1 tg = Some (File b)" using d1 by simp
  have "?comps = butlast ?comps @ [last ?comps]" using split_nonempty[of ?p "''/''"] by simp
  then have "walk (disk w1) (start_dir (cwd e) ?p) ?comps
             = (case walk (disk w1) (start_dir (cwd e) ?p) (butlast ?comps) of
                  None \<Rightarrow> None | Some d \<Rightarrow> walk (disk w1) d [last ?comps])"
    using walk_append[of "disk w1" "start_dir (cwd e) ?p" "butlast ?comps" "[last ?comps]"]
    by simp
  then have "walk (disk w1) (start_dir (cwd e) ?p) ?comps = Some tg"
    using gw gd gt ok tg by simp
  then have dest: "destination (disk w1) e out zi = Some tg"
    using ok(1) by (simp add: destination_def)
  have a1: "adds_dirs (disk w) f1" using m by (rule makedirs_adds_dirs)
  have "\<forall>q. q \<noteq> tg \<longrightarrow> disk w1 q = disk w q \<or> (disk w q = None \<and> disk w1 q = Some Dir)"
    using a1 d1 by (auto simp: adds_dirs_def)
  then show ?thesis using b dest gt by blast
qed

lemma extract_members_append:
  "extract_members e out exts (xs @ ys) n w =
     (case extract_members e out exts xs n w of
        (w1, Inl x) \<Rightarrow> (w1, Inl x)
      | (w1, Inr k) \<Rightarrow> extract_members e out exts ys k w1)"
  by (induction xs arbitrary: n w) (auto split: prod.splits sum.splits)

lemma extract_members_keeps:
  assumes "extract_members e out exts ys n w = (w', Inr k)"
      and "disk w tg = Some (File b)"
      and "list_all (\<lambda>zj. destination (disk w') e out zj \<noteq> Some tg) (filter (selected exts) ys)"
  shows "disk w' tg = Some (File b)"
  using assms
proof (induction ys arbitrary: n w)
  case Nil
  then show ?case by simp
next
  case (Cons zj ys)
  show ?case
  proof (cases "selected exts zj")
    case False
    then have "is_dir zj \<or> \<not> is_media exts zj" by (auto simp: selected_iff)
    then have "extract_members e out exts ys n w = (w', Inr k)"
      using Cons.prems(1) extract_members_skip[of zj exts e out ys n w] by simp
    from Cons.IH[OF this Cons.prems(2)] show ?thesis using Cons.prems(3) False by simp
  next
    case True
    then have sel: "\<not> is_dir zj" "is_media exts zj" by (auto simp: selected_iff)
    note step = extract_members_take[OF sel, of e out ys n w]
    obtain w1 r1 where m: "extract_member e out zj w = (w1, r1)"
      by (cases "extract_member e out zj w")
    then obtain u where r1: "r1 = Inr u" using Cons.prems(1) step by (cases r1) auto
    have rest: "extract_members e out exts ys (Suc n) w1 = (w', Inr k)"
      using Cons.prems(1) step m r1 by simp
    have e1: "extends (disk w1) (disk w')" using rest by (rule extract_members_extends)
    from extract_member_destination[OF m[unfolded r1]] obtain tj where
      dj: "destination (disk w1) e out zj = Some tj"
      and frame: "\<forall>q. q \<noteq> tj \<longrightarrow> disk w1 q = disk w q \<or> (disk w q = None \<and> disk w1 q = Some Dir)"
      by blast
    have "destination (disk w') e out zj = Some tj" using dj e1 by (rule destination_extends)
    then have "tj \<noteq> tg" using Cons.prems(3) True by auto
    then have "disk w1 tg = Some (File b)" using frame Cons.prems(2) by auto
    from Cons.IH[OF rest this] show ?thesis using Cons.prems(3) True by simp
  qed
qed

lemma extract_members_contents:
  assumes "extract_members e out exts zs n w = (w', Inr k)"
      and "filter (selected exts) zs = pre @ zi # post"
      and "list_all (\<lambda>zj. destination (disk w') e out zj \<noteq> destination (disk w') e out zi) post"
  shows "\<exists>tg b. member zi = Data b \<and> destination (disk w') e out zi = Some tg
           \<and> disk w' tg = Some (File b)"
proof -
  have "set (pre @ zi # post) = {z \<in> set zs. selected exts z}"
    using assms(2) by (metis set_filter)
  then have sel: "list_all (selected exts) (pre @ zi # post)"
    by (auto simp: list_all_iff)
  then have szi: "\<not> is_dir zi" "is_media exts zi" by (auto simp: selected_iff)
  have fpost: "filter (selected exts) post = post" using sel by (auto simp: list_all_iff)
  have run: "extract_members e out exts (pre @ zi # post) n w = (w', Inr k)"
    using assms(1,2) extract_members_only_selected[of e out exts zs n w] by simp
  obtain wa ra where a: "extract_members e out exts pre n w = (wa, ra)"
    by (cases "extract_members e out exts pre n w")
  then obtain ka where ra: "ra = Inr ka"
    using run by (cases ra) (auto simp: extract_members_append)
  have run2: "extract_members e out exts (zi # post) ka wa = (w', Inr k)"
    using run a ra by (simp add: extract_members_append)
  note step = extract_members_take[OF szi, of e out post ka wa]
  obtain wb rb where m: "extract_member e out zi wa = (wb, rb)"
    by (cases "extract_member e out zi wa")
  then obtain u where rb: "rb = Inr u" using run2 step by (cases rb) auto
  have rest: "extract_members e out exts post (Suc ka) wb = (w', Inr k)"
    using run2 step m rb by simp
  have e1: "extends (disk wb) (disk w')" using rest by (rule extract_members_extends)
  from extract_member_destination[OF m[unfolded rb]] obtain tg b where
    b: "member zi = Data b" and dz: "destination (disk wb) e out zi = Some tg"
    and ft: "disk wb tg = Some (File b)"
    by blast
  have dz': "destination (disk w') e out zi = Some tg" using dz e1 by (rule destination_extends)
  have "list_all (\<lambda>zj. destination (disk w') e out zj \<noteq> Some tg) (filter (selected exts) post)"
    using assms(3) dz' fpost by simp
  from extract_members_keeps[OF rest ft this] show ?thesis using b dz' by blast
qed

text \<open>
  Claim C1, as the code has it: the members that are directories or match no suffix
  contribute nothing (the run on the archive is the run on its selected members alone:
  same disk, same lines, same end), and whenever the run completes, it has printed one
  \<open>Extracted\<close> line for each selected member, in archive order, it reports their number,
  the destination of each of them is a regular file on the disk, and that file holds the
  member's bytes unless a later selected member has the same destination.
\<close>

theorem extractor_writes_the_selected_members:
  "extract_archive e out exts (Zip zs) w
     = extract_archive e out exts (Zip (filter (selected exts) zs)) w
   \<and> (snd (extract_archive e out exts (Zip zs) w) = Inr () \<longrightarrow>
        stdout (fst (extract_archive e out exts (Zip zs) w))
          = stdout w @ map (\<lambda>zi. Extracted (filename zi)) (filter (selected exts) zs)
              @ [Done (length (filter (selected exts) zs)) out]
        \<and> list_all (\<lambda>zi. isfile (disk (fst (extract_archive e out exts (Zip zs) w))) (cwd e)
                                  (extract_path out zi))
                    (filter (selected exts) zs)
        \<and> (\<forall>pre zi post.
              filter (selected exts) zs = pre @ zi # post
              \<and> list_all (\<lambda>zj. destination (disk (fst (extract_archive e out exts (Zip zs) w)))
                                    e out zj
                                 \<noteq> destination (disk (fst (extract_archive e out exts (Zip zs) w)))
                                      e out zi) post
              \<longrightarrow> (\<exists>tg b. member zi = Data b
                     \<and> destination (disk (fst (extract_archive e out exts (Zip zs) w))) e out zi
                         = Some tg
                     \<and> disk (fst (extract_archive e out exts (Zip zs) w)) tg = Some (File b))))"
proof (intro conjI impI allI)
  show "extract_archive e out exts (Zip zs) w
          = extract_archive e out exts (Zip (filter (selected exts) zs)) w"
    using extract_members_only_selected[of e out exts zs 0 w]
    by (simp add: extract_archive_def)
next
  assume ok: "snd (extract_archive e out exts (Zip zs) w) = Inr ()"
  obtain w' r where run: "extract_members e out exts zs 0 w = (w', r)"
    by (cases "extract_members e out exts zs 0 w")
  then obtain k where r: "r = Inr k"
    using ok by (cases r) (auto simp: extract_archive_def split: exception.splits)
  have fin: "extract_archive e out exts (Zip zs) w = (say [Done k out] w', Inr ())"
    using run r by (simp add: extract_archive_def)
  then have dk: "disk (fst (extract_archive e out exts (Zip zs) w)) = disk w'"
    by (simp add: say_def)
  note c = extract_members_complete[OF run[unfolded r]]
  show "stdout (fst (extract_archive e out exts (Zip zs) w))
          = stdout w @ map (\<lambda>zi. Extracted (filename zi)) (filter (selected exts) zs)
              @ [Done (length (filter (selected exts) zs)) out]"
    using fin c by (simp add: say_def)
  show "list_all (\<lambda>zi. isfile (disk (fst (extract_archive e out exts (Zip zs) w))) (cwd e)
                                (extract_path out zi))
                 (filter (selected exts) zs)"
    using c by (simp add: dk)
  fix pre zi post
  assume "filter (selected exts) zs = pre @ zi # post
          \<and> list_all (\<lambda>zj. destination (disk (fst (extract_archive e out exts (Zip zs) w)))
                                e out zj
                             \<noteq> destination (disk (fst (extract_archive e out exts (Zip zs) w)))
                                  e out zi) post"
  then have f: "filter (selected exts) zs = pre @ zi # post"
    and l: "list_all (\<lambda>zj. destination (disk w') e out zj \<noteq> destination (disk w') e out zi) post"
    by (simp_all add: dk)
  show "\<exists>tg b. member zi = Data b
          \<and> destination (disk (fst (extract_archive e out exts (Zip zs) w))) e out zi = Some tg
          \<and> disk (fst (extract_archive e out exts (Zip zs) w)) tg = Some (File b)"
    using extract_members_contents[OF run[unfolded r] f l] by (simp add: dk)
qed

lemma example_selected:
  "filter (selected default_media_extensions) example_archive
     = [\<lparr>filename = ''a.jpg'', member = Data ''A''\<rparr>,
        \<lparr>filename = ''sub/c.png'', member = Data ''C''\<rparr>]"
  by code_simp

text \<open>
  The archive \<open>a.jpg\<close>, \<open>b.txt\<close>, \<open>sub/c.png\<close>, \<open>sub/\<close> with the default suffixes:
  \<open>a.jpg\<close> and \<open>sub/c.png\<close> are written with their bytes, \<open>b.txt\<close> is not, the count
  is 2.
\<close>

theorem extractor_writes_the_selected_members_witness:
  "stdout (fst (extract_archive offline ''downloads'' default_media_extensions
                  (Zip example_archive) fresh))
     = [Extracted ''a.jpg'', Extracted ''sub/c.png'', Done 2 ''downloads'']
   \<and> disk (fst (extract_archive offline ''downloads'' default_media_extensions
                  (Zip example_archive) fresh)) [''home'', ''downloads'', ''a.jpg'']
     = Some (File ''A'')
   \<and> disk (fst (extract_archive offline ''downloads'' default_media_extensions
                  (Zip example_archive) fresh)) [''home'', ''downloads'', ''sub'', ''c.png'']
     = Some (File ''C'')
   \<and> disk (fst (extract_archive offline ''downloads'' default_media_extensions
                  (Zip example_archive) fresh)) [''home'', ''downloads'', ''b.txt'']
     = None
   \<and> disk (fst (extract_archive offline ''downloads'' default_media_extensions
                  (Zip example_archive) fresh)) [''home'', ''downloads'', ''sub'']
     = Some Dir"
proof -
  let ?run = "extract_archive offline ''downloads'' default_media_extensions
                (Zip example_archive) fresh"
  have ok: "snd ?run = Inr ()" by code_simp
  have o: "stdout fresh = []" by (simp add: fresh_def)
  have "stdout (fst ?run)
          = stdout fresh
            @ map (\<lambda>zi. Extracted (filename zi))
                  (filter (selected default_media_extensions) example_archive)
            @ [Done (length (filter (selected default_media_extensions) example_archive))
                    ''downloads'']"
    using extractor_writes_the_selected_members
            [of offline "''downloads''" default_media_extensions example_archive fresh] ok
    by blast
  then have out: "stdout (fst ?run)
                    = [Extracted ''a.jpg'', Extracted ''sub/c.png'', Done 2 ''downloads'']"
    by (simp add: o example_selected)
  have a: "disk (fst ?run) [''home'', ''downloads'', ''a.jpg''] = Some (File ''A'')" by code_simp
  have c: "disk (fst ?run) [''home'', ''downloads'', ''sub'', ''c.png''] = Some (File ''C'')"
    by code_simp
  have b: "disk (fst ?run) [''home'', ''downloads'', ''b.txt''] = None" by code_simp
  have s: "disk (fst ?run) [''home'', ''downloads'', ''sub''] = Some Dir" by code_simp
  show ?thesis using out a b c s by simp
qed

text \<open>
  An archive with the members \<open>x.jpg\<close> and \<open>x.jpg/y.jpg\<close>: the second is selected, but
  \<open>os.makedirs\<close> finds the file \<open>downloads/x.jpg\<close> where it needs a directory; the run ends
  with that \<open>OSError\<close>, the second member is not written and no count is reported.
\<close>

theorem conflicting_members_counterexample:
  "selected default_media_extensions \<lparr>filename = ''x.jpg/y.jpg'', member = Data ''second''\<rparr>
   \<and> snd (extract_archive offline ''downloads'' default_media_extensions
            (Zip conflicting_archive) fresh) = Inl (Unexpected OSError)
   \<and> stdout (fst (extract_archive offline ''downloads'' default_media_extensions
            (Zip conflicting_archive) fresh)) = [Extracted ''x.jpg'']
   \<and> disk (fst (extract_archive offline ''downloads'' default_media_extensions
            (Zip conflicting_archive) fresh)) [''home'', ''downloads'', ''x.jpg'']
       = Some (File ''first'')
   \<and> disk (fst (extract_archive offline ''downloads'' default_media_extensions
            (Zip conflicting_archive) fresh)) [''home'', ''downloads'', ''x.jpg'', ''y.jpg'']
       = None"
  by code_simp

section \<open>The output folder and the archive that does not open\<close>
















text \<open>
  Claim C2: there is a member whose name begins with \<open>../\<close> whose destination,
  \<open>downloads/../stolen.jpg\<close>, resolves to \<open>/home/stolen.jpg\<close>, outside the output folder
  \<open>/home/downloads\<close>; nothing stops the extraction, and the member's bytes are written
  there.
\<close>

theorem traversal_escapes_the_output_folder:
  "\<exists>zi. startswith (filename zi) ''../''
      \<and> extract_path ''downloads'' zi = ''downloads/../stolen.jpg''
      \<and> snd (extract_archive offline ''downloads'' default_media_extensions (Zip [zi]) fresh)
          = Inr ()
      \<and> walk (disk (fst (extract_archive offline ''downloads'' default_media_extensions
                            (Zip [zi]) fresh)))
              (start_dir (cwd offline) ''downloads'') (split ''downloads'' ''/'')
          = Some [''home'', ''downloads'']
      \<and> walk (disk (fst (extract_archive offline ''downloads'' default_media_extensions
                            (Zip [zi]) fresh)))
              (start_dir (cwd offline) (extract_path ''downloads'' zi))
              (split (extract_path ''downloads'' zi) ''/'')
          = Some [''home'', ''stolen.jpg'']
      \<and> \<not> inside [''home'', ''downloads''] [''home'', ''stolen.jpg'']
      \<and> disk (fst (extract_archive offline ''downloads'' default_media_extensions
                      (Zip [zi]) fresh)) [''home'', ''stolen.jpg'']
          = Some (File ''payload'')
      \<and> example_disk [''home'', ''stolen.jpg''] = None"
proof (intro exI[of _ "\<lparr>filename = ''../stolen.jpg'', member = Data ''payload''\<rparr>"] conjI)
qed code_simp+

text \<open>
  An archive that holds \<open>a.jpg\<close> twice, extracted twice: the second run completes as the
  first did, and \<open>a.jpg\<close> has the bytes of its last occurrence.
\<close>

theorem extraction_twice_same_files_and_count_witness:
  "snd (extract_archive offline ''downloads'' default_media_extensions (Zip repeated_archive)
          (fst (extract_archive offline ''downloads'' default_media_extensions
                  (Zip repeated_archive) fresh)))
     = Inr ()
   \<and> disk (fst (extract_archive offline ''downloads'' default_media_extensions
                  (Zip repeated_archive)
                  (fst (extract_archive offline ''downloads'' default_media_extensions
                          (Zip repeated_archive) fresh))))
          [''home'', ''downloads'', ''a.jpg'']
     = Some (File ''new'')"
proof -
  let ?once = "extract_archive offline ''downloads'' default_media_extensions
                 (Zip repeated_archive) fresh"
  have a: "snd ?once = Inr ()" by code_simp
  have b: "disk (fst ?once) [''home'', ''downloads'', ''a.jpg''] = Some (File ''new'')"
    by code_simp
  show ?thesis
    using extraction_twice_same_files_and_count
            [of offline "''downloads''" default_media_extensions "Zip repeated_archive" fresh]
          a b
    by simp
qed


end
